theory Spec2Isabelle
  imports Complex_Main "HOL-Library.Word" "HOL-Library.Log_Nat"
begin

unbundle bit_operations_syntax

section \<open>Data model\<close>

text \<open>
  The ways in which a call of the C++ code does not return a result: an index outside a
  vector or buffer, an OpenCV size assertion, the OpenCV assertion that the source of a
  colour conversion is not empty, and a 16-bit loop counter that wraps before it reaches
  its bound.
\<close>

datatype fault = OutOfRange | SizeMismatch | EmptyMat | CounterWrap

text \<open>A \<open>cv::Mat\<close> with one channel: \<open>size[0]\<close> rows, \<open>size[1]\<close> columns, row-major data.\<close>

record 'a Mat =
  rows :: nat
  cols :: nat
  data :: "'a list"

record cvSize =
  width :: int
  height :: int


section \<open>Selecting the allowed error (lines 106--120)\<close>

text \<open>
  \<open>error_counts\<close> is \<open>calloc(5, sizeof(int))\<close>; the loop of lines 110--113 counts a pixel
  only when its error is below 4. The counts are \<open>int\<close>s: they stay below the number of
  pixels, so the 32-bit range is not written out.
\<close>

definition count_step :: "16 word \<Rightarrow> int list \<Rightarrow> int list" where
  "count_step e cs = (if unat e < 4 then cs[unat e := cs ! unat e + 1] else cs)"

definition error_histogram :: "16 word list \<Rightarrow> int list" where
  "error_histogram err = fold count_step err (replicate 5 0)"

text \<open>
  Line 115: \<open>for (; allowed_error < 4 && error_counts[allowed_error] < minPointCount;
  allowed_error++, error_counts[allowed_error] += error_counts[allowed_error - 1]);\<close>
\<close>

function select_loop :: "int \<Rightarrow> nat \<Rightarrow> int list \<Rightarrow> nat \<times> int list" where
  "select_loop minPointCount a cs =
     (if a < 4 \<and> cs ! a < minPointCount
      then select_loop minPointCount (Suc a) (cs[Suc a := cs ! Suc a + cs ! a])
      else (a, cs))"
  by pat_completeness auto
termination
  by (relation "measure (\<lambda>(m, a, cs). 4 - a)") auto

declare select_loop.simps [simp del]

definition allowed_error :: "16 word list \<Rightarrow> int \<Rightarrow> nat" where
  "allowed_error err minPointCount = fst (select_loop minPointCount 0 (error_histogram err))"

text \<open>
  Lines 117--120: the two \<open>reserve\<close> calls happen only below the sentinel 4; the value is
  the size that is requested, \<open>None\<close> when no reservation is made.
\<close>

definition reserved :: "16 word list \<Rightarrow> int \<Rightarrow> int option" where
  "reserved err minPointCount =
     (case select_loop minPointCount 0 (error_histogram err) of
        (a, cs) \<Rightarrow> if a < 4 then Some (cs ! a) else None)"

text \<open>The number of pixels whose error level is at most \<open>l\<close>.\<close>

definition cumulative :: "16 word list \<Rightarrow> nat \<Rightarrow> int" where
  "cumulative err l = int (length (filter (\<lambda>e. unat e \<le> l) err))"

definition level_count :: "16 word list \<Rightarrow> nat \<Rightarrow> int" where
  "level_count err l = int (length (filter (\<lambda>e. unat e = l) err))"

section \<open>The OpenCV operations of the decoder\<close>

definition same_size :: "'a Mat \<Rightarrow> 'b Mat \<Rightarrow> bool" where
  "same_size a b \<longleftrightarrow> rows a = rows b \<and> cols a = cols b"

text \<open>
  \<open>cv::subtract(src1, src2, dst, mask, CV_16S)\<close> on 8-bit frames: the sizes of the two
  sources and of the mask must agree (OpenCV raises otherwise). The destination is
  allocated and zero-filled when its size differs from the sources', and is written only
  where the mask is non-zero; elsewhere it keeps its element. The difference of two 8-bit
  values lies in [-255, 255], so a 16-bit signed pixel is modelled as its \<open>int\<close> value.
\<close>

definition subtract_16S ::
  "8 word Mat \<Rightarrow> 8 word Mat \<Rightarrow> int Mat \<Rightarrow> 8 word Mat \<Rightarrow> fault + int Mat" where
  "subtract_16S src1 src2 dst msk =
     (if same_size src1 src2 \<and> same_size src1 msk then
        let n = rows src1 * cols src1;
            old = (if same_size dst src1 then data dst else replicate n 0)
        in Inr \<lparr>rows = rows src1, cols = cols src1,
                data = map (\<lambda>k. if data msk ! k \<noteq> 0
                                  then uint (data src1 ! k) - uint (data src2 ! k)
                                  else old ! k) [0..<n]\<rparr>
      else Inl SizeMismatch)"

text \<open>
  \<open>Mat::forEach\<close> calls the functor once for every element with the element and its
  position (row, column). The functors of this file touch only the slots of their own
  pixel, so the order of the calls is immaterial; the model visits the elements in
  row-major order and stops at the first fault.
\<close>

definition forEach ::
  "('a \<Rightarrow> nat \<times> nat \<Rightarrow> 's \<Rightarrow> fault + 's) \<Rightarrow> 'a Mat \<Rightarrow> 's \<Rightarrow> fault + 's" where
  "forEach f m s =
     fold (\<lambda>k r. case r of Inl e \<Rightarrow> Inl e
                 | Inr s' \<Rightarrow> f (data m ! k) (k div cols m, k mod cols m) s')
       [0..<rows m * cols m] (Inr s)"

section \<open>Decoding the bit planes (lines 67--104)\<close>

text \<open>The three \<open>calloc\<close>ed buffers of lines 72--74.\<close>

record buffers =
  error :: "16 word list"
  coordinates :: "16 word list"
  temp :: "bool list"

text \<open>
  Line 67: \<open>(uint16_t)ceil(log(double(projectionSize.width)) / log(2.0)) * 2\<close>, in
  double arithmetic. The quotient of the two rounded logarithms has the ceiling of the
  binary logarithm (\<^const>\<open>ceillog2\<close>) for every positive \<open>int\<close> width but one: at
  \<open>2^29 = 536870912\<close> the quotient is 29.000000000000004 and its ceiling is 30. For a
  width that is not positive the logarithm is minus infinity or not a number, the
  conversion to \<open>uint16_t\<close> is undefined in C++, and the compiled code yields 0, as
  \<^const>\<open>ceillog2\<close> does. The theorems that say what a call returns are stated for widths
  from 1 to 65536.
\<close>

definition log2_ceil_double :: "int \<Rightarrow> nat" where
  "log2_ceil_double w = (if w = 536870912 then 30 else ceillog2 (nat w))"

definition column_frame_count :: "cvSize \<Rightarrow> 16 word" where
  "column_frame_count projectionSize = word_of_nat (log2_ceil_double (width projectionSize)) * 2"

text \<open>
  Line 78: \<open>const uint8_t current_error = (column_frame_count - i) >> 1\<close>, promoted back
  to \<open>int\<close> where it is compared and stored (lines 84--85).
\<close>

definition column_error :: "16 word \<Rightarrow> nat \<Rightarrow> 16 word" where
  "column_error ccf i = ucast (word_of_int ((uint ccf - int i) div 2) :: 8 word)"

text \<open>
  Line 93: \<open>const uint16_t current_error = ((uint16_t)frames.size() - column_frame_count - i) >> 1\<close>.
  The subtraction and the shift are done in \<open>int\<close> (the shift of a negative \<open>int\<close> is
  arithmetic, that is \<open>div 2\<close> rounding down), and the result is cut to 16 bits.
\<close>

definition row_error :: "nat \<Rightarrow> 16 word \<Rightarrow> nat \<Rightarrow> 16 word" where
  "row_error frames_size ccf i =
     word_of_int ((uint (word_of_nat frames_size :: 16 word) - uint ccf - int i) div 2)"

text \<open>
  The functor of lines 80--88 (\<open>axis = 0\<close>) and of lines 95--103 (\<open>axis = 1\<close>): the two
  differ only in the slot \<open>2 * pos + axis\<close> of \<open>coordinates\<close>. A \<open>pos\<close> outside the buffers
  is a fault.
\<close>

definition decode_pixel ::
  "nat \<Rightarrow> 16 word \<Rightarrow> int \<Rightarrow> nat \<Rightarrow> int \<Rightarrow> nat \<times> nat \<Rightarrow> buffers \<Rightarrow> fault + buffers" where
  "decode_pixel axis current_error threshold camera_width pixel position b =
     (let pos = fst position * camera_width + snd position in
      if pos < length (error b) \<and> pos < length (temp b) \<and> 2 * pos + axis < length (coordinates b)
      then
        let c1 = (coordinates b)[2 * pos + axis := push_bit 1 (coordinates b ! (2 * pos + axis))];
            t1 = (temp b)[pos := (temp b ! pos \<noteq> (pixel \<ge> 0))];
            e1 = (if pixel > - threshold \<and> pixel < threshold \<and>
                     uint current_error > uint (error b ! pos)
                  then (error b)[pos := current_error] else error b);
            c2 = (if t1 ! pos then c1[2 * pos + axis := c1 ! (2 * pos + axis) + 1] else c1)
        in Inr \<lparr>error = e1, coordinates = c2, temp = t1\<rparr>
      else Inl OutOfRange)"

text \<open>
  Lines 77--89, \<open>for (int i = 0; i < column_frame_count; i += 2)\<close>. \<open>frames[i + 1]\<close> beyond
  the vector is a fault. \<open>diff\<close> is the same \<open>cv::Mat\<close> in every pass.
\<close>

function column_loop ::
  "8 word Mat list \<Rightarrow> 8 word Mat \<Rightarrow> int \<Rightarrow> nat \<Rightarrow> 16 word \<Rightarrow> nat \<Rightarrow> int Mat \<times> buffers
     \<Rightarrow> fault + int Mat \<times> buffers" where
  "column_loop frames msk threshold camera_width ccf i (diff, b) =
     (if i < unat ccf then
        if i + 1 < length frames then
          case subtract_16S (frames ! i) (frames ! (i + 1)) diff msk of
            Inl e \<Rightarrow> Inl e
          | Inr diff' \<Rightarrow>
              (case forEach (decode_pixel 0 (column_error ccf i) threshold camera_width) diff' b of
                 Inl e \<Rightarrow> Inl e
               | Inr b' \<Rightarrow> column_loop frames msk threshold camera_width ccf (i + 2) (diff', b'))
        else Inl OutOfRange
      else Inr (diff, b))"
  by pat_completeness auto
termination
  by (relation "measure (\<lambda>(frames, msk, threshold, cw, ccf, i, s). unat ccf - i)") auto

declare column_loop.simps [simp del]

text \<open>
  Lines 92--104, \<open>for (uint16_t i = column_frame_count; i < frames.size(); i += 2)\<close>. When
  \<open>i += 2\<close> would pass 65535 the counter wraps to 0 or 1 and stays below \<open>frames.size()\<close>
  for ever: the call does not return, which is the fault \<^const>\<open>CounterWrap\<close>.
\<close>

function row_loop ::
  "8 word Mat list \<Rightarrow> 8 word Mat \<Rightarrow> int \<Rightarrow> nat \<Rightarrow> 16 word \<Rightarrow> nat \<Rightarrow> int Mat \<times> buffers
     \<Rightarrow> fault + int Mat \<times> buffers" where
  "row_loop frames msk threshold camera_width ccf i (diff, b) =
     (if i < length frames then
        if i + 1 < length frames then
          case subtract_16S (frames ! i) (frames ! (i + 1)) diff msk of
            Inl e \<Rightarrow> Inl e
          | Inr diff' \<Rightarrow>
              (case forEach (decode_pixel 1 (row_error (length frames) ccf i) threshold
                               camera_width) diff' b of
                 Inl e \<Rightarrow> Inl e
               | Inr b' \<Rightarrow>
                   if i + 2 < 65536
                   then row_loop frames msk threshold camera_width ccf (i + 2) (diff', b')
                   else Inl CounterWrap)
        else Inl OutOfRange
      else Inr (diff, b))"
  by pat_completeness auto
termination
  by (relation "measure (\<lambda>(frames, msk, threshold, cw, ccf, i, s). length frames - i)") auto

declare row_loop.simps [simp del]

text \<open>
  Lines 67--104 together. \<open>frames[0]\<close> of an empty vector does not exist. \<open>all_pixels\<close>
  (\<open>uint32_t\<close>) and \<open>pos\<close> (\<open>int\<close>) are taken without wrap-around: the slots
  \<open>2 * pos + 1\<close> stay in the range of \<open>int\<close> for frames of at most \<open>2^30\<close> pixels, and
  the theorems about the claims that depend on it are stated for such frames. \<open>temp\<close> is
  cleared between the two loops (line 90).
\<close>

definition decode ::
  "8 word Mat list \<Rightarrow> cvSize \<Rightarrow> 8 word Mat \<Rightarrow> int \<Rightarrow> fault + buffers" where
  "decode frames projectionSize msk threshold =
     (if frames = [] then Inl OutOfRange
      else
        let ccf = column_frame_count projectionSize;
            camera_height = rows (frames ! 0);
            camera_width = cols (frames ! 0);
            all_pixels = camera_width * camera_height;
            b0 = \<lparr>error = replicate all_pixels 0,
                  coordinates = replicate (2 * all_pixels) 0,
                  temp = replicate all_pixels False\<rparr>;
            diff0 = \<lparr>rows = 0, cols = 0, data = []\<rparr>
        in case column_loop frames msk threshold camera_width ccf 0 (diff0, b0) of
             Inl e \<Rightarrow> Inl e
           | Inr (diff1, b1) \<Rightarrow>
               (case row_loop frames msk threshold camera_width ccf (unat ccf)
                       (diff1, b1\<lparr>temp := replicate all_pixels False\<rparr>) of
                  Inl e \<Rightarrow> Inl e
                | Inr (diff2, b2) \<Rightarrow> Inr b2))"

section \<open>Filtering the pairs (lines 124--135)\<close>

text \<open>The condition of line 130, with the \<open>uint16_t\<close> operands promoted to \<open>int\<close>.\<close>

definition accepted :: "cvSize \<Rightarrow> nat \<Rightarrow> 16 word \<Rightarrow> 16 word \<Rightarrow> 16 word \<Rightarrow> bool" where
  "accepted projectionSize allowed p_x p_y e \<longleftrightarrow>
     uint p_x \<ge> 0 \<and> uint p_x < width projectionSize \<and>
     uint p_y \<ge> 0 \<and> uint p_y < height projectionSize \<and>
     uint e \<le> int allowed"




section \<open>The decoder, pixel by pixel\<close>

text \<open>
  The definitions of this section serve the proofs. A \<open>cv::Mat\<close> holds \<open>rows * cols\<close>
  elements, and the three buffers hold one error level, two coordinates and one flag per
  pixel.
\<close>

definition wf_Mat :: "'a Mat \<Rightarrow> bool" where
  "wf_Mat m \<longleftrightarrow> length (data m) = rows m * cols m"

definition wf_buffers :: "nat \<Rightarrow> buffers \<Rightarrow> bool" where
  "wf_buffers n b \<longleftrightarrow>
     length (error b) = n \<and> length (coordinates b) = 2 * n \<and> length (temp b) = n"

text \<open>
  What the functor of lines 80--88 and 95--103 does to the slots of one pixel: the flag
  \<open>temp[pos]\<close>, the error level and the coordinate accumulator.
\<close>

definition toggle :: "bool \<Rightarrow> int \<Rightarrow> bool" where
  "toggle t pixel = (t \<noteq> (pixel \<ge> 0))"

definition raise_error :: "16 word \<Rightarrow> int \<Rightarrow> int \<Rightarrow> 16 word \<Rightarrow> 16 word" where
  "raise_error current_error threshold pixel e =
     (if pixel > - threshold \<and> pixel < threshold \<and> uint current_error > uint e
      then current_error else e)"

definition shift_in :: "bool \<Rightarrow> 16 word \<Rightarrow> 16 word" where
  "shift_in t c = (if t then push_bit 1 c + 1 else push_bit 1 c)"

text \<open>The buffers after the functor has visited the first \<open>j\<close> pixels of a difference image.\<close>

definition pass :: "nat \<Rightarrow> 16 word \<Rightarrow> int \<Rightarrow> int list \<Rightarrow> nat \<Rightarrow> buffers \<Rightarrow> buffers" where
  "pass axis ce thr px j b =
     \<lparr>error = map (\<lambda>k. if k < j then raise_error ce thr (px ! k) (error b ! k) else error b ! k)
                [0..<length (error b)],
      coordinates = map (\<lambda>i. if i div 2 < j \<and> i mod 2 = axis
                              then shift_in (toggle (temp b ! (i div 2)) (px ! (i div 2)))
                                     (coordinates b ! i)
                              else coordinates b ! i) [0..<length (coordinates b)],
      temp = map (\<lambda>k. if k < j then toggle (temp b ! k) (px ! k) else temp b ! k)
               [0..<length (temp b)]\<rparr>"

text \<open>
  The slots of the pixel \<open>k\<close> (x accumulator, y accumulator, flag, error level) and the
  effect of one pass on them.
\<close>

type_synonym pixel_state = "16 word \<times> 16 word \<times> bool \<times> 16 word"

definition view :: "buffers \<Rightarrow> nat \<Rightarrow> pixel_state" where
  "view b k = (coordinates b ! (2 * k), coordinates b ! (2 * k + 1), temp b ! k, error b ! k)"

definition pixel_step :: "nat \<Rightarrow> 16 word \<Rightarrow> int \<Rightarrow> int \<Rightarrow> pixel_state \<Rightarrow> pixel_state" where
  "pixel_step axis ce thr p s =
     (case s of (x, y, t, e) \<Rightarrow>
        (if axis = 0 then shift_in (toggle t p) x else x,
         if axis = 0 then y else shift_in (toggle t p) y,
         toggle t p,
         raise_error ce thr p e))"

text \<open>
  The difference image of the pair \<open>(frames[i], frames[i + 1])\<close> when the frames and the mask
  have the size of \<open>frames[0]\<close>: a pixel outside the mask keeps the 0 that \<open>diff\<close> got when
  it was allocated.
\<close>

definition pair_diff :: "8 word Mat list \<Rightarrow> 8 word Mat \<Rightarrow> nat \<Rightarrow> int list" where
  "pair_diff frames msk i =
     map (\<lambda>k. if data msk ! k \<noteq> 0
              then uint (data (frames ! i) ! k) - uint (data (frames ! (i + 1)) ! k)
              else 0) [0..<rows (frames ! 0) * cols (frames ! 0)]"

definition wf_input :: "8 word Mat list \<Rightarrow> 8 word Mat \<Rightarrow> bool" where
  "wf_input frames msk \<longleftrightarrow>
     frames \<noteq> [] \<and> (\<forall>f \<in> set frames. same_size f (frames ! 0) \<and> wf_Mat f) \<and>
     same_size msk (frames ! 0) \<and> wf_Mat msk"

definition diff_ok :: "8 word Mat list \<Rightarrow> 8 word Mat \<Rightarrow> int Mat \<Rightarrow> bool" where
  "diff_ok frames msk diff \<longleftrightarrow>
     (same_size diff (frames ! 0) \<longrightarrow>
        (\<forall>k < rows (frames ! 0) * cols (frames ! 0). data msk ! k = 0 \<longrightarrow> data diff ! k = 0))"

text \<open>The values of the loop counter in \<open>c\<close> turns of a loop that starts at \<open>i\<close> and steps by 2.\<close>

definition pair_indices :: "nat \<Rightarrow> nat \<Rightarrow> nat list" where
  "pair_indices i c = map (\<lambda>j. i + 2 * j) [0..<c]"

definition pixel_diff :: "8 word Mat list \<Rightarrow> 8 word Mat \<Rightarrow> nat \<Rightarrow> nat \<Rightarrow> int" where
  "pixel_diff frames msk i k =
     (if data msk ! k \<noteq> 0
      then uint (data (frames ! i) ! k) - uint (data (frames ! Suc i) ! k) else 0)"

text \<open>
  The run of one pixel through the call: the horizontal passes from all-zero slots, the
  clearing of the flag (line 90), the vertical passes.
\<close>

definition column_steps ::
  "8 word Mat list \<Rightarrow> 8 word Mat \<Rightarrow> int \<Rightarrow> 16 word \<Rightarrow> nat \<Rightarrow> nat \<Rightarrow> pixel_state \<Rightarrow> pixel_state" where
  "column_steps frames msk thr ccf c k =
     fold (\<lambda>i. pixel_step 0 (column_error ccf i) thr (pixel_diff frames msk i k))
       (pair_indices 0 c)"

definition row_steps ::
  "8 word Mat list \<Rightarrow> 8 word Mat \<Rightarrow> int \<Rightarrow> 16 word \<Rightarrow> nat \<Rightarrow> nat \<Rightarrow> pixel_state \<Rightarrow> pixel_state" where
  "row_steps frames msk thr ccf c k =
     fold (\<lambda>i. pixel_step 1 (row_error (length frames) ccf i) thr (pixel_diff frames msk i k))
       (pair_indices (unat ccf) c)"

definition clear_temp :: "pixel_state \<Rightarrow> pixel_state" where
  "clear_temp s = (case s of (x, y, t, e) \<Rightarrow> (x, y, False, e))"

definition decoded_pixel ::
  "8 word Mat list \<Rightarrow> cvSize \<Rightarrow> 8 word Mat \<Rightarrow> int \<Rightarrow> nat \<Rightarrow> pixel_state" where
  "decoded_pixel frames projectionSize msk thr k =
     (let ccf = column_frame_count projectionSize
      in row_steps frames msk thr ccf ((length frames - unat ccf) div 2) k
           (clear_temp (column_steps frames msk thr ccf (unat ccf div 2) k (0, 0, False, 0))))"

text \<open>
  The noise band of lines 84 and 99, the code that a list of differences leaves in one
  accumulator, and the weights of the passes whose difference lies in the band.
\<close>

definition in_band :: "int \<Rightarrow> int \<Rightarrow> bool" where
  "in_band thr p \<longleftrightarrow> p > - thr \<and> p < thr"

definition code_step :: "int \<Rightarrow> 16 word \<times> bool \<Rightarrow> 16 word \<times> bool" where
  "code_step p s = (shift_in (toggle (snd s) p) (fst s), toggle (snd s) p)"

definition axis_code :: "int list \<Rightarrow> 16 word" where
  "axis_code ps = fst (fold code_step ps (0, False))"

definition recorded :: "(nat \<Rightarrow> 16 word) \<Rightarrow> int \<Rightarrow> (nat \<Rightarrow> int) \<Rightarrow> nat list \<Rightarrow> 16 word set" where
  "recorded ce thr p is = {ce i |i. i \<in> set is \<and> in_band thr (p i)}"

section \<open>The filter, pixel by pixel\<close>





text \<open>A frame of one row and two columns, for the concrete runs.\<close>

definition frame12 :: "8 word list \<Rightarrow> 8 word Mat" where
  "frame12 xs = \<lparr>rows = 1, cols = 2, data = xs\<rparr>"

text \<open>A sequence of 65536 frames, more than a 16-bit loop counter can count.\<close>

definition long_capture :: "8 word Mat list" where
  "long_capture = replicate 65536 (frame12 [0, 255])"

text \<open>A sequence of 58 frames, twice the binary logarithm of \<open>2^29\<close>.\<close>

definition exact_count_capture :: "8 word Mat list" where
  "exact_count_capture = replicate 58 (frame12 [0, 255])"

section \<open>Error levels over one call\<close>

text \<open>No error level of \<open>b'\<close> is below the level of \<open>b\<close> at the same pixel.\<close>

definition never_decreases :: "buffers \<Rightarrow> buffers \<Rightarrow> bool" where
  "never_decreases b b' \<longleftrightarrow>
     length (error b') = length (error b) \<and>
     (\<forall>q < length (error b). error b ! q \<le> error b' ! q)"

text \<open>The weights that one call records for the pixel \<open>k\<close>, over both axes.\<close>

definition recorded_weights ::
  "8 word Mat list \<Rightarrow> cvSize \<Rightarrow> 8 word Mat \<Rightarrow> int \<Rightarrow> nat \<Rightarrow> 16 word set" where
  "recorded_weights frames projectionSize msk thr k =
     (let ccf = column_frame_count projectionSize
      in recorded (column_error ccf) thr (\<lambda>i. pixel_diff frames msk i k)
           (pair_indices 0 (unat ccf div 2)) \<union>
         recorded (row_error (length frames) ccf) thr (\<lambda>i. pixel_diff frames msk i k)
           (pair_indices (unat ccf) ((length frames - unat ccf) div 2)))"

section \<open>The synthetic capture of the round-trip scenario\<close>








section \<open>The mask and the pipeline driver (lines 16--63)\<close>

text \<open>
  The OpenCV image operations that the file calls and whose arithmetic it does not fix:
  the grey level of a colour pixel (\<open>cv::cvtColor\<close> with \<open>COLOR_BGR2GRAY\<close> works pixel
  by pixel), the 5 by 5 Gaussian blur, and the level that Otsu's method picks for an
  8-bit image. They are parameters of the model.
\<close>

record 'c imgproc =
  bgr2gray :: "'c \<Rightarrow> 8 word"
  gaussian_blur_5x5 :: "8 word Mat \<Rightarrow> 8 word Mat"
  otsu_level :: "8 word Mat \<Rightarrow> 8 word"


definition gray_frame :: "'c imgproc \<Rightarrow> 'c Mat \<Rightarrow> 8 word Mat" where
  "gray_frame cv src = \<lparr>rows = rows src, cols = cols src, data = map (bgr2gray cv) (data src)\<rparr>"

text \<open>\<open>cv::cvtColor(src, dst, cv::COLOR_BGR2GRAY)\<close>; OpenCV asserts that \<open>src\<close> is not empty.\<close>

definition cvtColor :: "'c imgproc \<Rightarrow> 'c Mat \<Rightarrow> fault + 8 word Mat" where
  "cvtColor cv src = (if rows src * cols src = 0 then Inl EmptyMat else Inr (gray_frame cv src))"

text \<open>
  \<open>cv::subtract\<close> of two 8-bit images without a mask: the sizes must agree, and the
  difference saturates at 0.
\<close>

definition subtract_8U :: "8 word Mat \<Rightarrow> 8 word Mat \<Rightarrow> fault + 8 word Mat" where
  "subtract_8U src1 src2 =
     (if same_size src1 src2
      then Inr \<lparr>rows = rows src1, cols = cols src1,
                data = map (\<lambda>k. word_of_int (max 0 (uint (data src1 ! k) - uint (data src2 ! k))))
                         [0..<rows src1 * cols src1]\<rparr>
      else Inl SizeMismatch)"

text \<open>
  \<open>cv::threshold(src, dst, thresh, 255, cv::THRESH_BINARY)\<close> on an 8-bit image: 255 where
  the pixel is greater than \<open>thresh\<close>, 0 elsewhere.
\<close>

definition threshold_binary :: "8 word Mat \<Rightarrow> int \<Rightarrow> 8 word Mat" where
  "threshold_binary src thresh =
     \<lparr>rows = rows src, cols = cols src,
      data = map (\<lambda>p. if uint p > thresh then 255 else 0) (data src)\<rparr>"

text \<open>\<open>getMask\<close> (lines 42--63). With \<open>THRESH_OTSU\<close> the level of Otsu's method replaces the 0.\<close>

definition getMask :: "'c imgproc \<Rightarrow> 'c Mat \<Rightarrow> 'c Mat \<Rightarrow> bool \<Rightarrow> int \<Rightarrow> fault + 8 word Mat" where
  "getMask cv whiteFrame blackFrame useOtsu threshold =
     (case cvtColor cv blackFrame of
        Inl e \<Rightarrow> Inl e
      | Inr processedBlackFrame \<Rightarrow>
          (case cvtColor cv whiteFrame of
             Inl e \<Rightarrow> Inl e
           | Inr processedWhiteFrame \<Rightarrow>
               (case subtract_8U processedWhiteFrame processedBlackFrame of
                  Inl e \<Rightarrow> Inl e
                | Inr difference \<Rightarrow>
                    if useOtsu
                    then let blurred = gaussian_blur_5x5 cv difference
                         in Inr (threshold_binary blurred (uint (otsu_level cv blurred)))
                    else Inr (threshold_binary difference threshold))))"




text \<open>
  The all-false mask, and concrete parameters for the runs: grey pixels that convert to
  themselves, default arguments, and a \<open>findMaps\<close> that hands back the two point lists.
\<close>

definition zero_image :: "nat \<Rightarrow> nat \<Rightarrow> 8 word Mat" where
  "zero_image r c = \<lparr>rows = r, cols = c, data = replicate (r * c) 0\<rparr>"

definition plain :: "8 word imgproc" where
  "plain = \<lparr>bgr2gray = (\<lambda>p. p), gaussian_blur_5x5 = (\<lambda>m. m), otsu_level = (\<lambda>m. 0)\<rparr>"





section \<open>The histogram and the selection loop\<close>

lemma count_step_length: "length (count_step e cs) = length cs"
  by (simp add: count_step_def)

lemma fold_count_step_length: "length (fold count_step err cs) = length cs"
  by (induction err arbitrary: cs) (simp_all add: count_step_length)

lemma fold_count_step_nth:
  "length cs = 5 \<Longrightarrow> k < 5 \<Longrightarrow>
   fold count_step err cs ! k = cs ! k + (if k < 4 then level_count err k else 0)"
proof (induction err arbitrary: cs)
  case Nil
  then show ?case by (simp add: level_count_def)
next
  case (Cons e err)
  have len: "length (count_step e cs) = 5"
    using Cons.prems(1) by (simp add: count_step_length)
  have step: "count_step e cs ! k = cs ! k + (if unat e = k \<and> k < 4 then 1 else 0)"
    using Cons.prems by (auto simp: count_step_def nth_list_update)
  have "fold count_step (e # err) cs ! k = fold count_step err (count_step e cs) ! k"
    by simp
  also have "\<dots> = count_step e cs ! k + (if k < 4 then level_count err k else 0)"
    using Cons.IH [OF len Cons.prems(2)] .
  also have "\<dots> = cs ! k + (if k < 4 then level_count (e # err) k else 0)"
    by (simp add: step level_count_def)
  finally show ?case .
qed

lemma error_histogram_length: "length (error_histogram err) = 5"
  by (simp add: error_histogram_def fold_count_step_length)

lemma error_histogram_nth:
  "k < 5 \<Longrightarrow> error_histogram err ! k = (if k < 4 then level_count err k else 0)"
  using fold_count_step_nth [of "replicate 5 0" k err]
  by (simp add: error_histogram_def)

lemma error_histogram_eq:
  "error_histogram err =
     [level_count err 0, level_count err 1, level_count err 2, level_count err 3, 0]"
proof (rule nth_equalityI)
  show "length (error_histogram err) =
        length [level_count err 0, level_count err 1, level_count err 2, level_count err 3, 0]"
    by (simp add: error_histogram_length)
next
  fix i assume "i < length (error_histogram err)"
  then have "i < 5" by (simp add: error_histogram_length)
  then consider "i = 0" | "i = 1" | "i = 2" | "i = 3" | "i = 4" by linarith
  then show "error_histogram err ! i =
        [level_count err 0, level_count err 1, level_count err 2, level_count err 3, 0] ! i"
    by cases (simp_all add: error_histogram_nth)
qed

lemma cumulative_0: "cumulative err 0 = level_count err 0"
  by (simp add: cumulative_def level_count_def)

lemma cumulative_Suc: "cumulative err (Suc l) = cumulative err l + level_count err (Suc l)"
  unfolding cumulative_def level_count_def
  by (induction err) (auto simp: le_Suc_eq)

lemma cumulative_mono: "l \<le> l' \<Longrightarrow> cumulative err l \<le> cumulative err l'"
  unfolding cumulative_def
  by (induction err) auto

lemma cumulative_1: "cumulative err (Suc 0) = level_count err 0 + level_count err (Suc 0)"
  by (simp add: cumulative_Suc cumulative_0)

lemma cumulative_2:
  "cumulative err 2 = level_count err 0 + level_count err (Suc 0) + level_count err 2"
proof -
  have "cumulative err (Suc (Suc 0)) = cumulative err (Suc 0) + level_count err (Suc (Suc 0))"
    by (rule cumulative_Suc)
  then show ?thesis by (simp add: cumulative_1 numeral_2_eq_2)
qed

lemma cumulative_3:
  "cumulative err 3 =
     level_count err 0 + level_count err (Suc 0) + level_count err 2 + level_count err 3"
proof -
  have "cumulative err (Suc 2) = cumulative err 2 + level_count err (Suc 2)"
    by (rule cumulative_Suc)
  then show ?thesis by (simp add: cumulative_2)
qed

text \<open>The loop of line 115 on a five-entry histogram, unrolled.\<close>

lemma select_loop_five:
  "select_loop m 0 [c0, c1, c2, c3, c4] =
     (if m \<le> c0 then (0, [c0, c1, c2, c3, c4])
      else if m \<le> c0 + c1 then (1, [c0, c1 + c0, c2, c3, c4])
      else if m \<le> c0 + c1 + c2 then (2, [c0, c1 + c0, c2 + (c1 + c0), c3, c4])
      else if m \<le> c0 + c1 + c2 + c3
        then (3, [c0, c1 + c0, c2 + (c1 + c0), c3 + (c2 + (c1 + c0)), c4])
      else (4, [c0, c1 + c0, c2 + (c1 + c0), c3 + (c2 + (c1 + c0)),
                c4 + (c3 + (c2 + (c1 + c0)))]))"
proof -
  have s4: "select_loop m (Suc (Suc (Suc (Suc 0)))) cs = (4, cs)" for cs
    by (subst select_loop.simps) simp
  have s3: "select_loop m (Suc (Suc (Suc 0))) [a0, a1, a2, a3, a4] =
      (if m \<le> a3 then (3, [a0, a1, a2, a3, a4]) else (4, [a0, a1, a2, a3, a4 + a3]))"
    for a0 a1 a2 a3 a4
    by (subst select_loop.simps) (simp add: s4)
  have s2: "select_loop m (Suc (Suc 0)) [a0, a1, a2, a3, a4] =
      (if m \<le> a2 then (2, [a0, a1, a2, a3, a4])
       else select_loop m (Suc (Suc (Suc 0))) [a0, a1, a2, a3 + a2, a4])"
    for a0 a1 a2 a3 a4
    by (subst select_loop.simps) simp
  have s1: "select_loop m (Suc 0) [a0, a1, a2, a3, a4] =
      (if m \<le> a1 then (1, [a0, a1, a2, a3, a4])
       else select_loop m (Suc (Suc 0)) [a0, a1, a2 + a1, a3, a4])"
    for a0 a1 a2 a3 a4
    by (subst select_loop.simps) simp
  have s0: "select_loop m 0 [a0, a1, a2, a3, a4] =
      (if m \<le> a0 then (0, [a0, a1, a2, a3, a4])
       else select_loop m (Suc 0) [a0, a1 + a0, a2, a3, a4])"
    for a0 a1 a2 a3 a4
    by (subst select_loop.simps) simp
  show ?thesis
    by (simp add: s0 s1 s2 s3 add.commute add.left_commute)
qed

lemma allowed_error_eq:
  "allowed_error err m =
     (if m \<le> cumulative err 0 then 0
      else if m \<le> cumulative err 1 then 1
      else if m \<le> cumulative err 2 then 2
      else if m \<le> cumulative err 3 then 3
      else 4)"
  by (simp add: allowed_error_def error_histogram_eq select_loop_five
      cumulative_0 cumulative_1 cumulative_2 cumulative_3)

lemma reserved_eq:
  "reserved err m =
     (if allowed_error err m < 4 then Some (cumulative err (allowed_error err m)) else None)"
  by (simp add: reserved_def allowed_error_def error_histogram_eq select_loop_five
      cumulative_0 cumulative_1 cumulative_2 cumulative_3 add.commute add.left_commute)

lemma cumulative_less_4: "cumulative err 3 = int (length (filter (\<lambda>e. unat e < 4) err))"
proof -
  have "(\<lambda>e::16 word. unat e \<le> 3) = (\<lambda>e. unat e < 4)"
    by (rule ext) linarith
  then show ?thesis by (simp add: cumulative_def)
qed

lemma cumulative_take_histogram:
  "l < 4 \<Longrightarrow> cumulative err l = sum_list (take (Suc l) (error_histogram err))"
proof -
  assume "l < 4"
  then consider "l = 0" | "l = Suc 0" | "l = 2" | "l = 3" by linarith
  then show ?thesis
  proof cases
    case 1
    then show ?thesis by (simp add: error_histogram_eq cumulative_0)
  next
    case 2
    then show ?thesis by (simp add: error_histogram_eq cumulative_1)
  next
    case 3
    then show ?thesis by (simp add: error_histogram_eq cumulative_2)
  next
    case 4
    then show ?thesis by (simp add: error_histogram_eq cumulative_3)
  qed
qed

lemma allowed_error_le_4: "allowed_error err m \<le> 4"
  by (simp add: allowed_error_eq)

lemma allowed_error_found:
  "allowed_error err m < 4 \<Longrightarrow> m \<le> cumulative err (allowed_error err m)"
  by (simp add: allowed_error_eq split: if_splits)

lemma allowed_error_below:
  "l < allowed_error err m \<Longrightarrow> cumulative err l < m"
proof -
  assume l: "l < allowed_error err m"
  have c01: "cumulative err 0 \<le> cumulative err 1" by (rule cumulative_mono) simp
  have c12: "cumulative err 1 \<le> cumulative err 2" by (rule cumulative_mono) simp
  have c23: "cumulative err 2 \<le> cumulative err 3" by (rule cumulative_mono) simp
  from l have "l < 4" using allowed_error_le_4 [of err m] by linarith
  then consider "l = 0" | "l = 1" | "l = 2" | "l = 3" by linarith
  then show ?thesis
    using l c01 c12 c23 by cases (auto simp: allowed_error_eq split: if_splits)
qed

lemma allowed_error_least:
  "l < 4 \<Longrightarrow> m \<le> cumulative err l \<Longrightarrow> allowed_error err m \<le> l"
  using allowed_error_below [of l err m] by (meson not_le_imp_less not_less)

section \<open>The claims about the selector\<close>

text \<open>
  Claim C5. The histogram counts a pixel only when its error level is below 4, so that the
  cumulative count of a level \<open>l < 4\<close> is the number of pixels of level at most \<open>l\<close>. When
  some level in {0,1,2,3} has a cumulative count of at least \<open>minPointCount\<close>, the selected
  tolerance is the least such level (and its cumulative count is the size reserved); when
  none has, the selector yields 4 and nothing is reserved.
\<close>

theorem selected_tolerance_is_minimal_level:
  "(\<forall>k<5. error_histogram err ! k = (if k < 4 then level_count err k else 0)) \<and>
   (\<forall>l<4. sum_list (take (Suc l) (error_histogram err)) = cumulative err l) \<and>
   ((\<exists>l<4. m \<le> cumulative err l) \<longrightarrow>
      allowed_error err m < 4 \<and>
      m \<le> cumulative err (allowed_error err m) \<and>
      (\<forall>l<allowed_error err m. cumulative err l < m) \<and>
      reserved err m = Some (cumulative err (allowed_error err m))) \<and>
   ((\<forall>l<4. cumulative err l < m) \<longrightarrow>
      allowed_error err m = 4 \<and> reserved err m = None)"
proof (intro conjI allI impI)
  fix k :: nat assume "k < 5"
  then show "error_histogram err ! k = (if k < 4 then level_count err k else 0)"
    by (rule error_histogram_nth)
next
  fix l :: nat assume "l < 4"
  then show "sum_list (take (Suc l) (error_histogram err)) = cumulative err l"
    by (simp only: cumulative_take_histogram)
next
  assume ex: "\<exists>l<4. m \<le> cumulative err l"
  then obtain l where l: "l < 4" "m \<le> cumulative err l" by blast
  from allowed_error_least [OF l] l(1) show lt: "allowed_error err m < 4" by linarith
  from lt show "m \<le> cumulative err (allowed_error err m)" by (rule allowed_error_found)
  from lt show "reserved err m = Some (cumulative err (allowed_error err m))"
    by (simp add: reserved_eq)
next
  fix l assume "l < allowed_error err m"
  then show "cumulative err l < m" by (rule allowed_error_below)
next
  assume none: "\<forall>l<4. cumulative err l < m"
  have "\<not> allowed_error err m < 4"
  proof
    assume lt: "allowed_error err m < 4"
    from allowed_error_found [OF lt] none lt show False by fastforce
  qed
  with allowed_error_le_4 [of err m] show a4: "allowed_error err m = 4" by linarith
  then show "reserved err m = None" by (simp add: reserved_eq)
qed

theorem selected_tolerance_is_minimal_level_witness:
  "(\<exists>l<4. 3 \<le> cumulative [0, 1, 5, 0] l) \<and>
   allowed_error [0, 1, 5, 0] 3 = 1 \<and>
   reserved [0, 1, 5, 0] 3 = Some 3 \<and>
   cumulative [0, 1, 5, 0] 3 < 10 \<and>
   allowed_error [0, 1, 5, 0] 10 = 4 \<and>
   reserved [0, 1, 5, 0] 10 = None"
proof -
  have c: "cumulative [0, 1, 5, 0] l = (if l = 0 then 2 else if l < 5 then 3 else 4)" for l
    by (simp add: cumulative_def)
  have ex: "\<exists>l<4. 3 \<le> cumulative [0, 1, 5, 0] l"
    by (rule exI [of _ 1]) (simp add: c)
  have none: "\<forall>l<4. cumulative [0, 1, 5, 0] l < 10"
    by (simp add: c)
  note t3 = selected_tolerance_is_minimal_level [of "[0, 1, 5, 0]" 3]
  note t10 = selected_tolerance_is_minimal_level [of "[0, 1, 5, 0]" 10]
  from t3 ex have lt: "allowed_error [0, 1, 5, 0] 3 < 4"
    and ge: "3 \<le> cumulative [0, 1, 5, 0] (allowed_error [0, 1, 5, 0] 3)"
    and below: "\<forall>l<allowed_error [0, 1, 5, 0] 3. cumulative [0, 1, 5, 0] l < 3"
    and res: "reserved [0, 1, 5, 0] 3 = Some (cumulative [0, 1, 5, 0] (allowed_error [0, 1, 5, 0] 3))"
    by blast+
  from ge have "allowed_error [0, 1, 5, 0] 3 \<noteq> 0"
    by (cases "allowed_error [0, 1, 5, 0] 3 = 0") (simp_all add: c)
  moreover have "\<not> 1 < allowed_error [0, 1, 5, 0] 3"
  proof
    assume "1 < allowed_error [0, 1, 5, 0] 3"
    with below have "cumulative [0, 1, 5, 0] 1 < 3" by blast
    then show False by (simp add: c)
  qed
  ultimately have a1: "allowed_error [0, 1, 5, 0] 3 = 1" by linarith
  from t10 none have "allowed_error [0, 1, 5, 0] 10 = 4 \<and> reserved [0, 1, 5, 0] 10 = None"
    by blast
  with ex none a1 res show ?thesis by (simp add: c)
qed

text \<open>
  Claim C6. For a fixed error buffer the selected tolerance does not decrease when
  \<open>minPointCount\<close> grows, and a \<open>minPointCount\<close> above the number of pixels whose error
  level is below 4 gives the sentinel 4 (with no reservation).
\<close>

theorem selected_tolerance_monotone:
  "(m \<le> m' \<longrightarrow> allowed_error err m \<le> allowed_error err m') \<and>
   (int (length (filter (\<lambda>e. unat e < 4) err)) < m \<longrightarrow>
      allowed_error err m = 4 \<and> reserved err m = None)"
proof (intro conjI impI)
  assume mm: "m \<le> m'"
  show "allowed_error err m \<le> allowed_error err m'"
  proof (cases "allowed_error err m' < 4")
    case True
    then have "m' \<le> cumulative err (allowed_error err m')" by (rule allowed_error_found)
    with mm have "m \<le> cumulative err (allowed_error err m')" by linarith
    with True show ?thesis by (rule allowed_error_least)
  next
    case False
    with allowed_error_le_4 [of err m] show ?thesis by linarith
  qed
next
  assume big: "int (length (filter (\<lambda>e. unat e < 4) err)) < m"
  then have c3: "cumulative err 3 < m" by (simp add: cumulative_less_4)
  have "cumulative err l < m" if "l < 4" for l
  proof -
    from that have "cumulative err l \<le> cumulative err 3" by (intro cumulative_mono) simp
    with c3 show ?thesis by linarith
  qed
  then have "\<not> allowed_error err m < 4"
    using allowed_error_found [of err m] by fastforce
  with allowed_error_le_4 [of err m] show a4: "allowed_error err m = 4" by linarith
  then show "reserved err m = None" by (simp add: reserved_eq)
qed

theorem selected_tolerance_monotone_witness:
  "(2::int) \<le> 3 \<and> allowed_error [0, 1, 5, 0] 2 \<le> allowed_error [0, 1, 5, 0] 3 \<and>
   int (length (filter (\<lambda>e. unat e < 4) [0, 1, 5, 0 :: 16 word])) < 4 \<and>
   allowed_error [0, 1, 5, 0] 4 = 4 \<and> reserved [0, 1, 5, 0] 4 = None"
  using selected_tolerance_monotone [of 2 3 "[0, 1, 5, 0]"]
    selected_tolerance_monotone [of 4 4 "[0, 1, 5, 0]"]
  by simp

section \<open>One pass over a bit-plane pair\<close>

lemma pass_0: "pass axis ce thr px 0 b = b"
  by (simp add: pass_def map_nth)

lemma wf_buffers_pass: "wf_buffers n b \<Longrightarrow> wf_buffers n (pass axis ce thr px j b)"
  by (simp add: wf_buffers_def pass_def)

lemma decode_pixel_pass:
  assumes wf: "wf_buffers n b" and j: "j < n" and ax: "axis < 2"
  shows "decode_pixel axis ce thr w (px ! j) (j div w, j mod w) (pass axis ce thr px j b) =
         Inr (pass axis ce thr px (Suc j) b)"
proof -
  define P where "P = pass axis ce thr px j b"
  define P' where "P' = pass axis ce thr px (Suc j) b"
  have pos: "j div w * w + j mod w = j" by simp
  have le: "length (error b) = n" and lt: "length (temp b) = n"
    and lc: "length (coordinates b) = 2 * n"
    using wf by (simp_all add: wf_buffers_def)
  have lP: "length (error P) = n" "length (temp P) = n" "length (coordinates P) = 2 * n"
    by (simp_all add: P_def pass_def le lt lc)
  have i: "2 * j + axis < 2 * n" using j ax by linarith
  have d: "(2 * j + axis) div 2 = j" and am: "axis mod 2 = axis"
    using ax by simp_all
  have e: "error P' =
      (if (px ! j) > - thr \<and> (px ! j) < thr \<and> uint ce > uint (error P ! j)
       then (error P)[j := ce] else error P)"
    using j unfolding P_def P'_def by (intro nth_equalityI)
      (auto simp: pass_def le raise_error_def nth_list_update less_Suc_eq)
  have t: "temp P' = (temp P)[j := (temp P ! j \<noteq> (px ! j \<ge> 0))]"
    using j unfolding P_def P'_def by (intro nth_equalityI)
      (auto simp: pass_def lt toggle_def nth_list_update less_Suc_eq)
  have c: "coordinates P' =
      (coordinates P)[2 * j + axis :=
         (if temp P ! j \<noteq> (px ! j \<ge> 0)
          then push_bit 1 (coordinates P ! (2 * j + axis)) + 1
          else push_bit 1 (coordinates P ! (2 * j + axis)))]"
  proof (intro nth_equalityI)
    show "length (coordinates P') = length ((coordinates P)[2 * j + axis :=
         (if temp P ! j \<noteq> (px ! j \<ge> 0)
          then push_bit 1 (coordinates P ! (2 * j + axis)) + 1
          else push_bit 1 (coordinates P ! (2 * j + axis)))])"
      by (simp add: P_def P'_def pass_def)
  next
    fix q assume "q < length (coordinates P')"
    then have q: "q < 2 * n" by (simp add: P'_def pass_def lc)
    show "coordinates P' ! q = (coordinates P)[2 * j + axis :=
         (if temp P ! j \<noteq> (px ! j \<ge> 0)
          then push_bit 1 (coordinates P ! (2 * j + axis)) + 1
          else push_bit 1 (coordinates P ! (2 * j + axis)))] ! q"
    proof (cases "q = 2 * j + axis")
      case True
      then show ?thesis
        using i j am by (simp add: P_def P'_def pass_def lc lt d shift_in_def toggle_def)
    next
      case False
      then have "\<not> (q div 2 = j \<and> q mod 2 = axis)" by auto
      then show ?thesis using False q
        by (auto simp add: P_def P'_def pass_def lc nth_list_update less_Suc_eq)
    qed
  qed
  have "decode_pixel axis ce thr w (px ! j) (j div w, j mod w) P =
        Inr \<lparr>error = error P', coordinates = coordinates P', temp = temp P'\<rparr>"
    unfolding e t c using j i
    by (simp add: decode_pixel_def Let_def lP)
  then show ?thesis by (simp add: P_def P'_def)
qed

lemma fold_decode_pixel:
  assumes wf: "wf_buffers n b" and ax: "axis < 2"
  shows "j \<le> n \<Longrightarrow>
         fold (\<lambda>k r. case r of Inl e \<Rightarrow> Inl e
                     | Inr s' \<Rightarrow> decode_pixel axis ce thr w (px ! k) (k div w, k mod w) s')
           [0..<j] (Inr b) = Inr (pass axis ce thr px j b)"
proof (induction j)
  case 0
  show ?case by (simp add: pass_0)
next
  case (Suc j)
  then have "j < n" "j \<le> n" by simp_all
  with Suc.IH decode_pixel_pass [OF wf _ ax, of j ce thr w px] show ?case by simp
qed

lemma forEach_decode_pixel:
  assumes "wf_buffers (rows d * cols d) b" and "axis < 2"
  shows "forEach (decode_pixel axis ce thr (cols d)) d b =
         Inr (pass axis ce thr (data d) (rows d * cols d) b)"
  unfolding forEach_def using fold_decode_pixel [OF assms, of "rows d * cols d"] by simp

lemma pair_indices_0: "pair_indices i 0 = []"
  by (simp add: pair_indices_def)

lemma pair_indices_Suc: "pair_indices i (Suc c) = i # pair_indices (i + 2) c"
proof -
  have "[0..<Suc c] = 0 # map Suc [0..<c]"
    by (simp add: upt_conv_Cons map_Suc_upt del: upt_Suc)
  then show ?thesis by (simp add: pair_indices_def comp_def del: upt_Suc)
qed

lemma view_pass:
  assumes "wf_buffers n b" and "k < n" and "axis < 2"
  shows "view (pass axis ce thr px n b) k = pixel_step axis ce thr (px ! k) (view b k)"
proof -
  from assms(3) consider "axis = 0" | "axis = 1" by linarith
  then show ?thesis
    using assms(1,2)
    by cases (simp_all add: view_def pass_def pixel_step_def wf_buffers_def)
qed

lemma view_fold_pass:
  assumes "k < n" and "axis < 2"
  shows "wf_buffers n b \<Longrightarrow>
         view (fold (\<lambda>i. pass axis (ce i) thr (px i) n) is b) k =
         fold (\<lambda>i. pixel_step axis (ce i) thr (px i ! k)) is (view b k)"
proof (induction "is" arbitrary: b)
  case Nil
  show ?case by simp
next
  case (Cons i "is")
  from Cons.prems have wf': "wf_buffers n (pass axis (ce i) thr (px i) n b)"
    by (rule wf_buffers_pass)
  show ?case
    using Cons.IH [OF wf'] view_pass [OF Cons.prems assms] by simp
qed

lemma wf_buffers_fold_pass:
  "wf_buffers n b \<Longrightarrow> wf_buffers n (fold (\<lambda>i. pass axis (ce i) thr (px i) n) is b)"
  by (induction "is" arbitrary: b) (simp_all add: wf_buffers_pass)

lemma subtract_16S_pair:
  assumes wf: "wf_input frames msk" and i: "Suc i < length frames"
    and ok: "diff_ok frames msk diff"
  shows "subtract_16S (frames ! i) (frames ! Suc i) diff msk =
           Inr \<lparr>rows = rows (frames ! 0), cols = cols (frames ! 0),
                data = pair_diff frames msk i\<rparr>"
proof -
  from i have "frames ! i \<in> set frames" "frames ! Suc i \<in> set frames" by simp_all
  with wf have s1: "same_size (frames ! i) (frames ! 0)"
    and s2: "same_size (frames ! Suc i) (frames ! 0)"
    and sm: "same_size msk (frames ! 0)"
    by (simp_all add: wf_input_def)
  from s1 have r: "rows (frames ! i) = rows (frames ! 0)"
    and c: "cols (frames ! i) = cols (frames ! 0)"
    by (simp_all add: same_size_def)
  from s1 s2 sm have cond: "same_size (frames ! i) (frames ! Suc i) \<and> same_size (frames ! i) msk"
    by (simp add: same_size_def)
  have old: "(if same_size diff (frames ! i) then data diff
              else replicate (rows (frames ! 0) * cols (frames ! 0)) 0) ! k = 0"
    if "k < rows (frames ! 0) * cols (frames ! 0)" "data msk ! k = 0" for k
    using that ok s1 by (auto simp: diff_ok_def same_size_def)
  have eq: "map (\<lambda>k. if data msk ! k \<noteq> 0
                 then uint (data (frames ! i) ! k) - uint (data (frames ! Suc i) ! k)
                 else (if same_size diff (frames ! i) then data diff
                       else replicate (rows (frames ! 0) * cols (frames ! 0)) 0) ! k)
          [0..<rows (frames ! 0) * cols (frames ! 0)] = pair_diff frames msk i"
    unfolding pair_diff_def by (rule map_cong) (simp_all add: old)
  show ?thesis
    unfolding subtract_16S_def Let_def r c
    by (simp only: cond eq if_True simp_thms)
qed

lemma diff_ok_pair:
  "diff_ok frames msk \<lparr>rows = rows (frames ! 0), cols = cols (frames ! 0),
                      data = pair_diff frames msk i\<rparr>"
  by (simp add: diff_ok_def pair_diff_def)

lemma column_loop_run:
  assumes wf: "wf_input frames msk"
  shows "unat ccf = i + 2 * c \<Longrightarrow> unat ccf \<le> length frames \<Longrightarrow>
         diff_ok frames msk diff \<Longrightarrow>
         wf_buffers (rows (frames ! 0) * cols (frames ! 0)) b \<Longrightarrow>
         \<exists>diff'. diff_ok frames msk diff' \<and>
           column_loop frames msk thr (cols (frames ! 0)) ccf i (diff, b) =
             Inr (diff', fold (\<lambda>i. pass 0 (column_error ccf i) thr (pair_diff frames msk i)
                                  (rows (frames ! 0) * cols (frames ! 0)))
                           (pair_indices i c) b)"
proof (induction c arbitrary: i diff b)
  case 0
  then show ?case
    by (subst column_loop.simps) (simp add: pair_indices_0)
next
  case (Suc c)
  let ?n = "rows (frames ! 0) * cols (frames ! 0)"
  let ?D = "\<lparr>rows = rows (frames ! 0), cols = cols (frames ! 0), data = pair_diff frames msk i\<rparr>"
  let ?b = "pass 0 (column_error ccf i) thr (pair_diff frames msk i) ?n b"
  from Suc.prems have i: "i < unat ccf" "Suc i < length frames" by simp_all
  have sub: "subtract_16S (frames ! i) (frames ! Suc i) diff msk = Inr ?D"
    using wf i(2) Suc.prems(3) by (rule subtract_16S_pair)
  have "forEach (decode_pixel 0 (column_error ccf i) thr (cols ?D)) ?D b =
        Inr (pass 0 (column_error ccf i) thr (data ?D) (rows ?D * cols ?D) b)"
    by (rule forEach_decode_pixel) (use Suc.prems(4) in simp_all)
  then have each: "forEach (decode_pixel 0 (column_error ccf i) thr (cols (frames ! 0))) ?D b = Inr ?b"
    by simp
  have step: "column_loop frames msk thr (cols (frames ! 0)) ccf i (diff, b) =
              column_loop frames msk thr (cols (frames ! 0)) ccf (i + 2) (?D, ?b)"
    by (subst column_loop.simps) (simp add: i sub each)
  have "\<exists>diff'. diff_ok frames msk diff' \<and>
           column_loop frames msk thr (cols (frames ! 0)) ccf (i + 2) (?D, ?b) =
             Inr (diff', fold (\<lambda>i. pass 0 (column_error ccf i) thr (pair_diff frames msk i) ?n)
                           (pair_indices (i + 2) c) ?b)"
    using Suc.prems by (intro Suc.IH) (simp_all add: diff_ok_pair wf_buffers_pass)
  then show ?case by (simp add: step pair_indices_Suc)
qed

lemma row_loop_run:
  assumes wf: "wf_input frames msk" and len: "length frames \<le> 65535"
  shows "length frames = i + 2 * c \<Longrightarrow>
         diff_ok frames msk diff \<Longrightarrow>
         wf_buffers (rows (frames ! 0) * cols (frames ! 0)) b \<Longrightarrow>
         \<exists>diff'. diff_ok frames msk diff' \<and>
           row_loop frames msk thr (cols (frames ! 0)) ccf i (diff, b) =
             Inr (diff', fold (\<lambda>i. pass 1 (row_error (length frames) ccf i) thr
                                    (pair_diff frames msk i)
                                    (rows (frames ! 0) * cols (frames ! 0)))
                           (pair_indices i c) b)"
proof (induction c arbitrary: i diff b)
  case 0
  then show ?case
    by (subst row_loop.simps) (simp add: pair_indices_0)
next
  case (Suc c)
  let ?n = "rows (frames ! 0) * cols (frames ! 0)"
  let ?D = "\<lparr>rows = rows (frames ! 0), cols = cols (frames ! 0), data = pair_diff frames msk i\<rparr>"
  let ?b = "pass 1 (row_error (length frames) ccf i) thr (pair_diff frames msk i) ?n b"
  from Suc.prems len have i: "i < length frames" "Suc i < length frames" "i + 2 < 65536"
    by simp_all
  have sub: "subtract_16S (frames ! i) (frames ! Suc i) diff msk = Inr ?D"
    using wf i(2) Suc.prems(2) by (rule subtract_16S_pair)
  have "forEach (decode_pixel 1 (row_error (length frames) ccf i) thr (cols ?D)) ?D b =
        Inr (pass 1 (row_error (length frames) ccf i) thr (data ?D) (rows ?D * cols ?D) b)"
    by (rule forEach_decode_pixel) (use Suc.prems(3) in simp_all)
  then have each: "forEach (decode_pixel 1 (row_error (length frames) ccf i) thr
                     (cols (frames ! 0))) ?D b = Inr ?b"
    by simp
  have step: "row_loop frames msk thr (cols (frames ! 0)) ccf i (diff, b) =
              row_loop frames msk thr (cols (frames ! 0)) ccf (i + 2) (?D, ?b)"
    using i sub each by (subst row_loop.simps) simp
  have "\<exists>diff'. diff_ok frames msk diff' \<and>
           row_loop frames msk thr (cols (frames ! 0)) ccf (i + 2) (?D, ?b) =
             Inr (diff', fold (\<lambda>i. pass 1 (row_error (length frames) ccf i) thr
                                    (pair_diff frames msk i) ?n)
                           (pair_indices (i + 2) c) ?b)"
    using Suc.prems by (intro Suc.IH) (simp_all add: diff_ok_pair wf_buffers_pass)
  then show ?case by (simp add: step pair_indices_Suc)
qed

section \<open>The two loops as one run per pixel\<close>

text \<open>
  Away from \<open>2^29\<close> the count of line 67 is the source's expression read over the real
  numbers: \<open>ceil(log(width) / log(2))\<close>, doubled.
\<close>

lemma column_frame_count_as_written:
  assumes "0 < width ps" and "width ps \<noteq> 536870912"
  shows "column_frame_count ps =
         word_of_nat (nat \<lceil>ln (real_of_int (width ps)) / ln 2\<rceil>) * 2"
proof -
  from assms have "nat (width ps) \<noteq> 0" by simp
  moreover have "real (nat (width ps)) = real_of_int (width ps)"
    using assms by simp
  ultimately have "ceillog2 (nat (width ps)) = nat \<lceil>ln (real_of_int (width ps)) / ln 2\<rceil>"
    by (simp add: ceillog2_def log_def)
  with assms(2) show ?thesis by (simp add: column_frame_count_def log2_ceil_double_def)
qed

lemma ceillog2_width_le:
  assumes "0 < w" and "w \<le> 65536"
  shows "ceillog2 (nat w) \<le> 16"
proof -
  have "nat w \<le> 2 ^ 16" using assms by (simp add: nat_le_iff)
  moreover have "0 < nat w" using assms by simp
  ultimately show ?thesis by (simp add: ceillog2_le_iff)
qed

lemma unat_column_frame_count:
  assumes "0 < width ps" and "width ps \<le> 65536"
  shows "unat (column_frame_count ps) = 2 * ceillog2 (nat (width ps))"
proof -
  have le: "ceillog2 (nat (width ps)) \<le> 16" using assms by (rule ceillog2_width_le)
  from assms(2) have "log2_ceil_double (width ps) = ceillog2 (nat (width ps))"
    by (simp add: log2_ceil_double_def)
  then have "unat (column_frame_count ps) =
          (ceillog2 (nat (width ps)) mod 65536 * 2) mod 65536"
    by (simp add: column_frame_count_def unat_word_ariths unat_of_nat)
  with le show ?thesis by simp
qed

lemma pair_diff_nth:
  "k < rows (frames ! 0) * cols (frames ! 0) \<Longrightarrow>
   pair_diff frames msk i ! k = pixel_diff frames msk i k"
  by (simp add: pair_diff_def pixel_diff_def)

lemma view_clear_temp:
  "k < n \<Longrightarrow> view (b\<lparr>temp := replicate n False\<rparr>) k = clear_temp (view b k)"
  by (simp add: view_def clear_temp_def)

lemma decode_run:
  assumes wf: "wf_input frames msk"
    and w: "0 < width ps" "width ps \<le> 65536"
    and prefix: "2 * ceillog2 (nat (width ps)) \<le> length frames"
    and ev: "even (length frames)"
    and len: "length frames \<le> 65535"
  shows "\<exists>b. decode frames ps msk thr = Inr b \<and>
           wf_buffers (rows (frames ! 0) * cols (frames ! 0)) b \<and>
           (\<forall>k < rows (frames ! 0) * cols (frames ! 0).
              view b k = decoded_pixel frames ps msk thr k)"
proof -
  let ?n = "rows (frames ! 0) * cols (frames ! 0)"
  let ?ccf = "column_frame_count ps"
  let ?c = "ceillog2 (nat (width ps))"
  let ?b0 = "\<lparr>error = replicate ?n 0, coordinates = replicate (2 * ?n) 0,
               temp = replicate ?n False\<rparr>"
  let ?d0 = "\<lparr>rows = 0, cols = 0, data = []\<rparr> :: int Mat"
  let ?colpass = "\<lambda>i. pass 0 (column_error ?ccf i) thr (pair_diff frames msk i) ?n"
  let ?rowpass = "\<lambda>i. pass 1 (row_error (length frames) ?ccf i) thr (pair_diff frames msk i) ?n"
  have ccf: "unat ?ccf = 2 * ?c" using w by (rule unat_column_frame_count)
  have ne: "frames \<noteq> []" using wf by (simp add: wf_input_def)
  have wf0: "wf_buffers ?n ?b0" by (simp add: wf_buffers_def)
  have ok0: "diff_ok frames msk ?d0" by (auto simp: diff_ok_def same_size_def)
  obtain m where m: "length frames = unat ?ccf + 2 * m"
  proof -
    from ev obtain q where q: "length frames = 2 * q" by (elim evenE)
    with prefix have "?c \<le> q" by simp
    then have "length frames = unat ?ccf + 2 * (q - ?c)" using q ccf by simp
    then show ?thesis by (rule that)
  qed
  then have mdiv: "(length frames - unat ?ccf) div 2 = m" by simp
  have cdiv: "unat ?ccf div 2 = ?c" by (simp add: ccf)
  let ?b1 = "fold ?colpass (pair_indices 0 ?c) ?b0"
  obtain d1 where d1: "diff_ok frames msk d1"
    and col: "column_loop frames msk thr (cols (frames ! 0)) ?ccf 0 (?d0, ?b0) = Inr (d1, ?b1)"
    using column_loop_run [OF wf, of ?ccf 0 ?c ?d0 ?b0 thr] ccf prefix ok0 wf0 by auto
  have wf1: "wf_buffers ?n ?b1" using wf0 by (rule wf_buffers_fold_pass)
  let ?b1' = "?b1\<lparr>temp := replicate ?n False\<rparr>"
  have wf1': "wf_buffers ?n ?b1'" using wf1 by (simp add: wf_buffers_def)
  let ?b2 = "fold ?rowpass (pair_indices (unat ?ccf) m) ?b1'"
  obtain d2 where
    row: "row_loop frames msk thr (cols (frames ! 0)) ?ccf (unat ?ccf) (d1, ?b1') = Inr (d2, ?b2)"
    using row_loop_run [OF wf len m d1 wf1', of thr ?ccf] by auto
  have wf2: "wf_buffers ?n ?b2" using wf1' by (rule wf_buffers_fold_pass)
  have dec: "decode frames ps msk thr = Inr ?b2"
    using w(1) ne col row by (simp add: decode_def Let_def mult.commute)
  have v: "view ?b2 k = decoded_pixel frames ps msk thr k" if k: "k < ?n" for k
  proof -
    have "view ?b1 k = fold (\<lambda>i. pixel_step 0 (column_error ?ccf i) thr (pair_diff frames msk i ! k))
                         (pair_indices 0 ?c) (view ?b0 k)"
      by (rule view_fold_pass [OF k _ wf0]) simp
    also have "\<dots> = column_steps frames msk thr ?ccf ?c k (0, 0, False, 0)"
      using k by (simp add: column_steps_def pair_diff_nth view_def)
    finally have v1: "view ?b1 k = column_steps frames msk thr ?ccf ?c k (0, 0, False, 0)" .
    have "view ?b2 k =
            fold (\<lambda>i. pixel_step 1 (row_error (length frames) ?ccf i) thr (pair_diff frames msk i ! k))
              (pair_indices (unat ?ccf) m) (view ?b1' k)"
      by (rule view_fold_pass [OF k _ wf1']) simp
    also have "\<dots> = row_steps frames msk thr ?ccf m k (clear_temp (view ?b1 k))"
      using k by (simp add: row_steps_def pair_diff_nth view_clear_temp)
    finally show ?thesis
      by (simp add: decoded_pixel_def Let_def mdiv cdiv v1)
  qed
  from dec wf2 v show ?thesis by blast
qed

section \<open>The run of one pixel\<close>

lemma raise_error_max:
  "raise_error ce thr p e = (if in_band thr p then max e ce else e)"
proof -
  have "uint e < uint ce \<longleftrightarrow> e < ce" by (simp add: word_less_def)
  then show ?thesis by (auto simp: raise_error_def in_band_def max_def)
qed

lemma fold_pixel_step_0:
  "fold (\<lambda>i. pixel_step 0 (ce i) thr (p i)) is (x, y, t, e) =
     (fst (fold code_step (map p is) (x, t)), y, snd (fold code_step (map p is) (x, t)),
      fold (\<lambda>i. raise_error (ce i) thr (p i)) is e)"
  by (induction "is" arbitrary: x t e) (simp_all add: pixel_step_def code_step_def)

lemma fold_pixel_step_1:
  "fold (\<lambda>i. pixel_step (Suc 0) (ce i) thr (p i)) is (x, y, t, e) =
     (x, fst (fold code_step (map p is) (y, t)), snd (fold code_step (map p is) (y, t)),
      fold (\<lambda>i. raise_error (ce i) thr (p i)) is e)"
  by (induction "is" arbitrary: y t e) (simp_all add: pixel_step_def code_step_def)

lemma recorded_Nil: "recorded ce thr p [] = {}"
  by (simp add: recorded_def)

lemma recorded_Cons:
  "recorded ce thr p (i # is) =
     (if in_band thr (p i) then insert (ce i) (recorded ce thr p is) else recorded ce thr p is)"
  by (auto simp: recorded_def)

lemma finite_recorded: "finite (recorded ce thr p is)"
  by (induction "is") (simp_all add: recorded_Nil recorded_Cons)

lemma fold_raise_error_Max:
  "fold (\<lambda>i. raise_error (ce i) thr (p i)) is e = Max (insert e (recorded ce thr p is))"
proof (induction "is" arbitrary: e)
  case Nil
  show ?case by (simp add: recorded_Nil)
next
  case (Cons i "is")
  let ?S = "recorded ce thr p is"
  have fin: "finite ?S" by (rule finite_recorded)
  have "fold (\<lambda>i. raise_error (ce i) thr (p i)) (i # is) e =
        Max (insert (raise_error (ce i) thr (p i) e) ?S)"
    by (simp add: Cons.IH)
  also have "\<dots> = Max (insert e (recorded ce thr p (i # is)))"
  proof (cases "in_band thr (p i)")
    case True
    have "Max (insert (max e (ce i)) ?S) = Max (insert e (insert (ce i) ?S))"
    proof (cases "?S = {}")
      case True
      then show ?thesis by simp
    next
      case False
      with fin show ?thesis by (simp add: max.assoc)
    qed
    with True show ?thesis by (simp add: raise_error_max recorded_Cons)
  next
    case False
    then show ?thesis by (simp add: raise_error_max recorded_Cons)
  qed
  finally show ?case .
qed

lemma column_frame_count_8: "column_frame_count \<lparr>width = 8, height = h\<rparr> = 6"
proof -
  have "ceillog2 (2 ^ 3) = 3" by (rule ceillog2_2_power)
  then show ?thesis by (simp add: column_frame_count_def log2_ceil_double_def)
qed

text \<open>
  Claim C4, at the failing input: a projector 8 pixels wide and 12 frames, that is 3
  horizontal pairs (at the frames 0, 2, 4) and 3 vertical pairs (at the frames 6, 8, 10).
  The horizontal pairs get the weights 3, 2, 1; the vertical pairs get 0, 65535, 65534,
  so that the first vertical pair has the lowest weight of its axis, not the highest.
\<close>

theorem row_weight_of_first_pair_is_lowest:
  "map (column_error (column_frame_count \<lparr>width = 8, height = 8\<rparr>)) (pair_indices 0 3) = [3, 2, 1] \<and>
   map (row_error 12 (column_frame_count \<lparr>width = 8, height = 8\<rparr>)) (pair_indices 6 3)
     = [0, 65535, 65534]"
  by (simp add: column_frame_count_8 pair_indices_def column_error_def row_error_def
      upt_conv_Cons)

text \<open>
  Claim C7. In the condition of line 130 the two comparisons with zero are true of every
  16-bit unsigned coordinate, so the condition is the two upper bounds and the error test.
\<close>

theorem lower_bound_checks_are_always_true:
  "uint p_x \<ge> 0 \<and> uint p_y \<ge> 0 \<and>
   (accepted projectionSize allowed p_x p_y e \<longleftrightarrow>
      uint p_x < width projectionSize \<and> uint p_y < height projectionSize \<and>
      uint e \<le> int allowed)"
  by (simp add: accepted_def)

section \<open>The filter\<close>










section \<open>The error level never decreases\<close>

lemma never_decreases_refl: "never_decreases b b"
  by (simp add: never_decreases_def)

lemma never_decreases_trans:
  "never_decreases a b \<Longrightarrow> never_decreases b c \<Longrightarrow> never_decreases a c"
  by (auto simp: never_decreases_def intro: order_trans)

lemma decode_pixel_error:
  assumes "decode_pixel axis ce thr w p pos b = Inr b'"
  shows "length (error b') = length (error b) \<and>
         (\<forall>q < length (error b). error b' ! q = error b ! q \<or> error b ! q < error b' ! q)"
proof -
  let ?k = "fst pos * w + snd pos"
  from assms have b': "error b' =
      (if p > - thr \<and> p < thr \<and> uint ce > uint (error b ! ?k)
       then (error b)[?k := ce] else error b)"
    by (auto simp: decode_pixel_def Let_def split: if_splits)
  show ?thesis
  proof (intro conjI allI impI)
    show "length (error b') = length (error b)" by (simp add: b')
  next
    fix q assume q: "q < length (error b)"
    show "error b' ! q = error b ! q \<or> error b ! q < error b' ! q"
    proof (cases "q = ?k")
      case True
      with q show ?thesis by (simp add: b' word_less_def)
    next
      case False
      then show ?thesis by (simp add: b')
    qed
  qed
qed

lemma decode_pixel_never_decreases:
  "decode_pixel axis ce thr w p pos b = Inr b' \<Longrightarrow> never_decreases b b'"
  using decode_pixel_error [of axis ce thr w p pos b b']
  by (auto simp: never_decreases_def)

lemma fold_fault:
  "fold (\<lambda>k r. case r of Inl e \<Rightarrow> Inl e | Inr s \<Rightarrow> f k s) ks (Inl e) = Inl e"
  by (induction ks) simp_all

lemma fold_never_decreases:
  assumes step: "\<And>k s s'. f k s = Inr s' \<Longrightarrow> never_decreases s s'"
  shows "fold (\<lambda>k r. case r of Inl e \<Rightarrow> Inl e | Inr s \<Rightarrow> f k s) ks (Inr b) = Inr b' \<Longrightarrow>
         never_decreases b b'"
proof (induction ks arbitrary: b)
  case Nil
  then show ?case by (simp add: never_decreases_refl)
next
  case (Cons k ks)
  show ?case
  proof (cases "f k b")
    case (Inl e)
    with Cons.prems show ?thesis by (simp add: fold_fault)
  next
    case (Inr s)
    with Cons.prems have "never_decreases s b'" by (intro Cons.IH) simp
    moreover from Inr have "never_decreases b s" by (rule step)
    ultimately show ?thesis by (blast intro: never_decreases_trans)
  qed
qed

lemma forEach_never_decreases:
  "forEach (decode_pixel axis ce thr w) d b = Inr b' \<Longrightarrow> never_decreases b b'"
  unfolding forEach_def
  by (rule fold_never_decreases [where f = "\<lambda>k s. decode_pixel axis ce thr w (data d ! k)
        (k div cols d, k mod cols d) s"])
    (auto intro: decode_pixel_never_decreases)

lemma column_loop_never_decreases:
  "column_loop frames msk thr w ccf i (diff, b) = Inr (diff', b') \<Longrightarrow> never_decreases b b'"
proof (induction frames msk thr w ccf i "(diff, b)" arbitrary: diff b rule: column_loop.induct)
  case (1 frames msk thr w ccf i diff b)
  show ?case
  proof (cases "i < unat ccf")
    case False
    with "1.prems" show ?thesis
      by (subst (asm) column_loop.simps) (simp add: never_decreases_refl)
  next
    case True
    with "1.prems" obtain d1 b1 where
      i: "i + 1 < length frames"
      and sub: "subtract_16S (frames ! i) (frames ! (i + 1)) diff msk = Inr d1"
      and each: "forEach (decode_pixel 0 (column_error ccf i) thr w) d1 b = Inr b1"
      and rest: "column_loop frames msk thr w ccf (i + 2) (d1, b1) = Inr (diff', b')"
      by (subst (asm) column_loop.simps) (auto split: if_splits sum.splits)
    from each have "never_decreases b b1" by (rule forEach_never_decreases)
    moreover have "never_decreases b1 b'"
      using True i sub each rest by (intro "1.hyps") auto
    ultimately show ?thesis by (rule never_decreases_trans)
  qed
qed

lemma row_loop_never_decreases:
  "row_loop frames msk thr w ccf i (diff, b) = Inr (diff', b') \<Longrightarrow> never_decreases b b'"
proof (induction frames msk thr w ccf i "(diff, b)" arbitrary: diff b rule: row_loop.induct)
  case (1 frames msk thr w ccf i diff b)
  show ?case
  proof (cases "i < length frames")
    case False
    with "1.prems" show ?thesis
      by (subst (asm) row_loop.simps) (simp add: never_decreases_refl)
  next
    case True
    with "1.prems" obtain d1 b1 where
      i: "i + 1 < length frames" "i + 2 < 65536"
      and sub: "subtract_16S (frames ! i) (frames ! (i + 1)) diff msk = Inr d1"
      and each: "forEach (decode_pixel 1 (row_error (length frames) ccf i) thr w) d1 b = Inr b1"
      and rest: "row_loop frames msk thr w ccf (i + 2) (d1, b1) = Inr (diff', b')"
      by (subst (asm) row_loop.simps) (auto split: if_splits sum.splits)
    from each have "never_decreases b b1" by (rule forEach_never_decreases)
    moreover have "never_decreases b1 b'"
      using True i sub each rest by (intro "1.hyps") auto
    ultimately show ?thesis by (rule never_decreases_trans)
  qed
qed

lemma Max_insert_Max:
  assumes "finite A" and "finite B"
  shows "Max (insert (Max (insert (z::16 word) A)) B) = Max (insert z (A \<union> B))"
proof (cases "B = {}")
  case True
  then show ?thesis by simp
next
  case False
  have "Max (insert (Max (insert z A)) B) = max (Max (insert z A)) (Max B)"
    using assms(2) False by simp
  also have "\<dots> = Max (insert z A \<union> B)"
    using assms False by (subst Max_Un) simp_all
  finally show ?thesis by simp
qed

lemma decoded_pixel_eq:
  "decoded_pixel frames ps msk thr k =
     (let ccf = column_frame_count ps;
          xs = map (\<lambda>i. pixel_diff frames msk i k) (pair_indices 0 (unat ccf div 2));
          ys = map (\<lambda>i. pixel_diff frames msk i k)
                 (pair_indices (unat ccf) ((length frames - unat ccf) div 2))
      in (axis_code xs, axis_code ys, snd (fold code_step ys (0, False)),
          Max (insert 0 (recorded_weights frames ps msk thr k))))"
  by (simp add: decoded_pixel_def column_steps_def row_steps_def Let_def fold_pixel_step_0
      fold_pixel_step_1 clear_temp_def axis_code_def fold_raise_error_Max Max_insert_Max
      finite_recorded recorded_weights_def)

section \<open>The claim about the error levels\<close>

text \<open>
  Claim C3. The functor of the two passes is the only writer of \<open>error\<close>: one call of it
  leaves every stored level as it is or replaces it by a strictly larger one. Hence no
  level decreases over the horizontal loop or over the vertical loop, from whatever state
  they start. For a well-formed frame sequence (frames of at most \<open>2^30\<close> pixels, a
  projector width from 1 to 65536) the call returns, and the final level of a pixel is the
  maximum of 0 and the weights recorded for it over both axes.
\<close>

theorem error_level_only_grows_to_the_maximum_weight:
  "(decode_pixel axis ce thr w p pos b = Inr b' \<longrightarrow>
      length (error b') = length (error b) \<and>
      (\<forall>q < length (error b). error b' ! q = error b ! q \<or> error b ! q < error b' ! q)) \<and>
   (column_loop frames msk thr w ccf i (diff, b) = Inr (diff', b') \<longrightarrow> never_decreases b b') \<and>
   (row_loop frames msk thr w ccf i (diff, b) = Inr (diff', b') \<longrightarrow> never_decreases b b') \<and>
   (wf_input frames msk \<and> rows (frames ! 0) * cols (frames ! 0) \<le> 2 ^ 30 \<and>
    0 < width ps \<and> width ps \<le> 65536 \<and>
    2 * ceillog2 (nat (width ps)) \<le> length frames \<and> even (length frames) \<and>
    length frames \<le> 65535 \<longrightarrow>
      (\<exists>bf. decode frames ps msk thr = Inr bf \<and>
         (\<forall>k < rows (frames ! 0) * cols (frames ! 0).
            error bf ! k = Max (insert 0 (recorded_weights frames ps msk thr k)))))"
proof (intro conjI impI)
  assume "decode_pixel axis ce thr w p pos b = Inr b'"
  then have *: "length (error b') = length (error b) \<and>
       (\<forall>q < length (error b). error b' ! q = error b ! q \<or> error b ! q < error b' ! q)"
    by (rule decode_pixel_error)
  from * show "length (error b') = length (error b)" by (rule conjunct1)
  from * show "\<forall>q < length (error b). error b' ! q = error b ! q \<or> error b ! q < error b' ! q"
    by (rule conjunct2)
next
  assume "column_loop frames msk thr w ccf i (diff, b) = Inr (diff', b')"
  then show "never_decreases b b'" by (rule column_loop_never_decreases)
next
  assume "row_loop frames msk thr w ccf i (diff, b) = Inr (diff', b')"
  then show "never_decreases b b'" by (rule row_loop_never_decreases)
next
  assume h: "wf_input frames msk \<and> rows (frames ! 0) * cols (frames ! 0) \<le> 2 ^ 30 \<and>
    0 < width ps \<and> width ps \<le> 65536 \<and>
    2 * ceillog2 (nat (width ps)) \<le> length frames \<and> even (length frames) \<and>
    length frames \<le> 65535"
  then have "\<exists>bf. decode frames ps msk thr = Inr bf \<and>
           wf_buffers (rows (frames ! 0) * cols (frames ! 0)) bf \<and>
           (\<forall>k < rows (frames ! 0) * cols (frames ! 0).
              view bf k = decoded_pixel frames ps msk thr k)"
    by (intro decode_run) simp_all
  then obtain bf where dec: "decode frames ps msk thr = Inr bf"
    and v: "\<forall>k < rows (frames ! 0) * cols (frames ! 0).
              view bf k = decoded_pixel frames ps msk thr k"
    by blast
  have "error bf ! k = Max (insert 0 (recorded_weights frames ps msk thr k))"
    if "k < rows (frames ! 0) * cols (frames ! 0)" for k
  proof -
    from v that have "view bf k = decoded_pixel frames ps msk thr k" by blast
    then have "snd (snd (snd (view bf k))) = snd (snd (snd (decoded_pixel frames ps msk thr k)))"
      by simp
    then show ?thesis by (simp add: view_def decoded_pixel_eq Let_def)
  qed
  with dec show "\<exists>bf. decode frames ps msk thr = Inr bf \<and>
         (\<forall>k < rows (frames ! 0) * cols (frames ! 0).
            error bf ! k = Max (insert 0 (recorded_weights frames ps msk thr k)))"
    by blast
qed

theorem error_level_only_grows_to_the_maximum_weight_witness:
  "decode_pixel 0 3 30 2 5 (0, 1)
       \<lparr>error = [0, 0], coordinates = [0, 0, 0, 0], temp = [False, False]\<rparr>
     = Inr \<lparr>error = [0, 3], coordinates = [0, 0, 1, 0], temp = [False, True]\<rparr> \<and>
   (0::16 word) < [0, 3] ! 1 \<and>
   (\<exists>d' b'. column_loop
        [frame12 [0, 255], frame12 [255, 0], frame12 [255, 0], frame12 [0, 255]]
        (frame12 [255, 255]) 30 2 2 0
        (\<lparr>rows = 0, cols = 0, data = []\<rparr>,
         \<lparr>error = [0, 0], coordinates = [0, 0, 0, 0], temp = [False, False]\<rparr>) = Inr (d', b') \<and>
      never_decreases \<lparr>error = [0, 0], coordinates = [0, 0, 0, 0], temp = [False, False]\<rparr> b') \<and>
   (\<exists>d' b'. row_loop
        [frame12 [0, 255], frame12 [255, 0], frame12 [255, 0], frame12 [0, 255]]
        (frame12 [255, 255]) 30 2 2 2
        (\<lparr>rows = 0, cols = 0, data = []\<rparr>,
         \<lparr>error = [0, 0], coordinates = [0, 0, 0, 0], temp = [False, False]\<rparr>) = Inr (d', b') \<and>
      never_decreases \<lparr>error = [0, 0], coordinates = [0, 0, 0, 0], temp = [False, False]\<rparr> b') \<and>
   (\<exists>bf. decode [frame12 [0, 255], frame12 [255, 0], frame12 [255, 0], frame12 [0, 255]]
            \<lparr>width = 2, height = 2\<rparr> (frame12 [255, 255]) 30 = Inr bf \<and>
         error bf ! 1 =
           Max (insert 0 (recorded_weights
             [frame12 [0, 255], frame12 [255, 0], frame12 [255, 0], frame12 [0, 255]]
             \<lparr>width = 2, height = 2\<rparr> (frame12 [255, 255]) 30 1)))"
proof -
  let ?F = "[frame12 [0, 255], frame12 [255, 0], frame12 [255, 0], frame12 [0, 255]]"
  let ?ps = "\<lparr>width = 2, height = 2\<rparr>"
  let ?M = "frame12 [255, 255]"
  let ?d0 = "\<lparr>rows = 0, cols = 0, data = []\<rparr> :: int Mat"
  let ?b0 = "\<lparr>error = [0, 0], coordinates = [0, 0, 0, 0], temp = [False, False]\<rparr>"
  let ?b1 = "\<lparr>error = [0, 3], coordinates = [0, 0, 1, 0], temp = [False, True]\<rparr>"
  note main = error_level_only_grows_to_the_maximum_weight
  have wf: "wf_input ?F ?M"
    by (simp add: wf_input_def same_size_def wf_Mat_def frame12_def)
  have n: "rows (?F ! 0) * cols (?F ! 0) = 2" and w: "cols (?F ! 0) = 2"
    by (simp_all add: frame12_def)
  have ok0: "diff_ok ?F ?M ?d0"
    by (simp add: diff_ok_def same_size_def frame12_def)
  have wf0: "wf_buffers (rows (?F ! 0) * cols (?F ! 0)) ?b0"
    by (simp add: wf_buffers_def frame12_def)
  have step: "decode_pixel 0 3 30 2 5 (0, 1) ?b0 = Inr ?b1"
    by (simp add: decode_pixel_def Let_def)
  have grows: "(0::16 word) < [0, 3] ! 1" by simp
  have "\<exists>d'. diff_ok ?F ?M d' \<and>
          column_loop ?F ?M 30 (cols (?F ! 0)) 2 0 (?d0, ?b0) =
            Inr (d', fold (\<lambda>i. pass 0 (column_error 2 i) 30 (pair_diff ?F ?M i)
                               (rows (?F ! 0) * cols (?F ! 0))) (pair_indices 0 1) ?b0)"
    by (rule column_loop_run [OF wf _ _ ok0 wf0]) simp_all
  then obtain d1 b1 where col: "column_loop ?F ?M 30 2 2 0 (?d0, ?b0) = Inr (d1, b1)"
    unfolding w by blast
  from main [where b = ?b0 and b' = b1 and frames = ?F and msk = ?M and thr = 30 and w = 2
      and ccf = 2 and i = 0 and diff = ?d0 and diff' = d1] col
  have c: "never_decreases ?b0 b1" by blast
  have "\<exists>d'. diff_ok ?F ?M d' \<and>
          row_loop ?F ?M 30 (cols (?F ! 0)) 2 2 (?d0, ?b0) =
            Inr (d', fold (\<lambda>i. pass 1 (row_error (length ?F) 2 i) 30 (pair_diff ?F ?M i)
                               (rows (?F ! 0) * cols (?F ! 0))) (pair_indices 2 1) ?b0)"
    by (rule row_loop_run [OF wf _ _ ok0 wf0]) simp_all
  then obtain d2 b2 where row: "row_loop ?F ?M 30 2 2 2 (?d0, ?b0) = Inr (d2, b2)"
    unfolding w by blast
  from main [where b = ?b0 and b' = b2 and frames = ?F and msk = ?M and thr = 30 and w = 2
      and ccf = 2 and i = 2 and diff = ?d0 and diff' = d2] row
  have r: "never_decreases ?b0 b2" by blast
  have hyp: "wf_input ?F ?M \<and> rows (?F ! 0) * cols (?F ! 0) \<le> 2 ^ 30 \<and>
      0 < width ?ps \<and> width ?ps \<le> 65536 \<and>
      2 * ceillog2 (nat (width ?ps)) \<le> length ?F \<and> even (length ?F) \<and> length ?F \<le> 65535"
    using wf by (simp add: frame12_def)
  from main [where frames = ?F and msk = ?M and thr = 30 and ps = ?ps] hyp
  have "\<exists>bf. decode ?F ?ps ?M 30 = Inr bf \<and>
         (\<forall>k < rows (?F ! 0) * cols (?F ! 0).
            error bf ! k = Max (insert 0 (recorded_weights ?F ?ps ?M 30 k)))"
    by blast
  then obtain bf where dec: "decode ?F ?ps ?M 30 = Inr bf"
    and e: "error bf ! 1 = Max (insert 0 (recorded_weights ?F ?ps ?M 30 1))"
    unfolding n by auto
  from step grows col c row r dec e show ?thesis by blast
qed

section \<open>Which frames the decoder consumes\<close>

lemma pair_indices_map: "map f (pair_indices i c) = map (\<lambda>j. f (i + 2 * j)) [0..<c]"
  by (simp add: pair_indices_def comp_def)

lemma decode_coordinates:
  assumes wf: "wf_input frames msk"
    and w: "0 < width ps" "width ps \<le> 65536"
    and prefix: "2 * ceillog2 (nat (width ps)) \<le> length frames"
    and ev: "even (length frames)"
    and len: "length frames \<le> 65535"
  shows "\<exists>b. decode frames ps msk thr = Inr b \<and>
           wf_buffers (rows (frames ! 0) * cols (frames ! 0)) b \<and>
           (\<forall>k < rows (frames ! 0) * cols (frames ! 0).
              coordinates b ! (2 * k) =
                axis_code (map (\<lambda>j. pixel_diff frames msk (2 * j) k)
                             [0..<ceillog2 (nat (width ps))]) \<and>
              coordinates b ! (2 * k + 1) =
                axis_code (map (\<lambda>j. pixel_diff frames msk (2 * ceillog2 (nat (width ps)) + 2 * j) k)
                             [0..<(length frames - 2 * ceillog2 (nat (width ps))) div 2]) \<and>
              error b ! k = Max (insert 0 (recorded_weights frames ps msk thr k)))"
proof -
  let ?n = "rows (frames ! 0) * cols (frames ! 0)"
  let ?c = "ceillog2 (nat (width ps))"
  have ccf: "unat (column_frame_count ps) = 2 * ?c" using w by (rule unat_column_frame_count)
  from decode_run [OF assms, of thr] obtain b where dec: "decode frames ps msk thr = Inr b"
    and wfb: "wf_buffers ?n b"
    and v: "\<forall>k < ?n. view b k = decoded_pixel frames ps msk thr k"
    by blast
  have "coordinates b ! (2 * k) =
          axis_code (map (\<lambda>j. pixel_diff frames msk (2 * j) k) [0..<?c]) \<and>
        coordinates b ! (2 * k + 1) =
          axis_code (map (\<lambda>j. pixel_diff frames msk (2 * ?c + 2 * j) k)
                       [0..<(length frames - 2 * ?c) div 2]) \<and>
        error b ! k = Max (insert 0 (recorded_weights frames ps msk thr k))"
    if "k < ?n" for k
  proof -
    from v that have "view b k = decoded_pixel frames ps msk thr k" by blast
    then show ?thesis
      by (simp add: view_def decoded_pixel_eq Let_def ccf pair_indices_map)
  qed
  with dec wfb show ?thesis by blast
qed

text \<open>
  Claim C8, as amended. For a projector width from 1 to 65536 and a well-formed frame
  sequence (frames and mask of one size, of at most \<open>2^30\<close> pixels) whose length is even,
  at least \<open>2 * ceil(log2(projectorWidth))\<close> and at most 65535, the call returns;
  \<open>column_frame_count\<close> is \<open>2 * ceil(log2(projectorWidth))\<close>; the x accumulator of every
  pixel is the code read from the pairs \<open>(frames[2j], frames[2j+1])\<close> of that prefix, and
  the y accumulator is the code read from the pairs of all the remaining frames.
\<close>

theorem leading_pairs_decode_x_remaining_pairs_decode_y:
  assumes "wf_input frames msk"
    and "0 < width ps" and "width ps \<le> 65536"
    and "2 * ceillog2 (nat (width ps)) \<le> length frames"
    and "even (length frames)"
    and "length frames \<le> 65535"
    and "rows (frames ! 0) * cols (frames ! 0) \<le> 2 ^ 30"
  shows "unat (column_frame_count ps) = 2 * ceillog2 (nat (width ps)) \<and>
         2 * ceillog2 (nat (width ps)) +
           2 * ((length frames - 2 * ceillog2 (nat (width ps))) div 2) = length frames \<and>
         (\<exists>b. decode frames ps msk thr = Inr b \<and>
            (\<forall>k < rows (frames ! 0) * cols (frames ! 0).
               coordinates b ! (2 * k) =
                 axis_code (map (\<lambda>j. pixel_diff frames msk (2 * j) k)
                              [0..<ceillog2 (nat (width ps))]) \<and>
               coordinates b ! (2 * k + 1) =
                 axis_code (map (\<lambda>j. pixel_diff frames msk
                                         (2 * ceillog2 (nat (width ps)) + 2 * j) k)
                              [0..<(length frames - 2 * ceillog2 (nat (width ps))) div 2])))"
proof (intro conjI)
  show "unat (column_frame_count ps) = 2 * ceillog2 (nat (width ps))"
    using assms(2,3) by (rule unat_column_frame_count)
next
  from assms(5) obtain q where "length frames = 2 * q" by (elim evenE)
  with assms(4) show "2 * ceillog2 (nat (width ps)) +
      2 * ((length frames - 2 * ceillog2 (nat (width ps))) div 2) = length frames"
    by (simp add: diff_mult_distrib2 [symmetric])
next
  from decode_coordinates [OF assms(1-6), of thr]
  show "\<exists>b. decode frames ps msk thr = Inr b \<and>
            (\<forall>k < rows (frames ! 0) * cols (frames ! 0).
               coordinates b ! (2 * k) =
                 axis_code (map (\<lambda>j. pixel_diff frames msk (2 * j) k)
                              [0..<ceillog2 (nat (width ps))]) \<and>
               coordinates b ! (2 * k + 1) =
                 axis_code (map (\<lambda>j. pixel_diff frames msk
                                         (2 * ceillog2 (nat (width ps)) + 2 * j) k)
                              [0..<(length frames - 2 * ceillog2 (nat (width ps))) div 2]))"
    by blast
qed

theorem leading_pairs_decode_x_remaining_pairs_decode_y_witness:
  "wf_input [frame12 [0, 255], frame12 [255, 0], frame12 [255, 0], frame12 [0, 255]]
     (frame12 [255, 255]) \<and>
   unat (column_frame_count \<lparr>width = 2, height = 2\<rparr>) = 2 \<and>
   (\<exists>b. decode [frame12 [0, 255], frame12 [255, 0], frame12 [255, 0], frame12 [0, 255]]
           \<lparr>width = 2, height = 2\<rparr> (frame12 [255, 255]) 30 = Inr b \<and>
        coordinates b ! 2 = 1 \<and> coordinates b ! 3 = 0)"
proof -
  let ?F = "[frame12 [0, 255], frame12 [255, 0], frame12 [255, 0], frame12 [0, 255]]"
  let ?ps = "\<lparr>width = 2, height = 2\<rparr>"
  let ?M = "frame12 [255, 255]"
  have wf: "wf_input ?F ?M"
    by (simp add: wf_input_def same_size_def wf_Mat_def frame12_def)
  have c: "ceillog2 (nat (width ?ps)) = 1" by simp
  have n: "rows (?F ! 0) * cols (?F ! 0) = 2" by (simp add: frame12_def)
  have "unat (column_frame_count ?ps) = 2 * ceillog2 (nat (width ?ps)) \<and>
        2 * ceillog2 (nat (width ?ps)) + 2 * ((length ?F - 2 * ceillog2 (nat (width ?ps))) div 2)
          = length ?F \<and>
        (\<exists>b. decode ?F ?ps ?M 30 = Inr b \<and>
            (\<forall>k < rows (?F ! 0) * cols (?F ! 0).
               coordinates b ! (2 * k) =
                 axis_code (map (\<lambda>j. pixel_diff ?F ?M (2 * j) k)
                              [0..<ceillog2 (nat (width ?ps))]) \<and>
               coordinates b ! (2 * k + 1) =
                 axis_code (map (\<lambda>j. pixel_diff ?F ?M (2 * ceillog2 (nat (width ?ps)) + 2 * j) k)
                              [0..<(length ?F - 2 * ceillog2 (nat (width ?ps))) div 2])))"
    by (rule leading_pairs_decode_x_remaining_pairs_decode_y [OF wf])
      (simp_all add: frame12_def)
  then have ccf: "unat (column_frame_count ?ps) = 2"
    and ex: "\<exists>b. decode ?F ?ps ?M 30 = Inr b \<and> (\<forall>k < 2.
       coordinates b ! (2 * k) = axis_code (map (\<lambda>j. pixel_diff ?F ?M (2 * j) k) [0..<1]) \<and>
       coordinates b ! (2 * k + 1) =
         axis_code (map (\<lambda>j. pixel_diff ?F ?M (2 * 1 + 2 * j) k) [0..<(length ?F - 2 * 1) div 2]))"
    unfolding c n by (simp, blast)
  from ex obtain b where dec: "decode ?F ?ps ?M 30 = Inr b"
    and every: "\<forall>k < 2.
       coordinates b ! (2 * k) = axis_code (map (\<lambda>j. pixel_diff ?F ?M (2 * j) k) [0..<1]) \<and>
       coordinates b ! (2 * k + 1) =
         axis_code (map (\<lambda>j. pixel_diff ?F ?M (2 * 1 + 2 * j) k) [0..<(length ?F - 2 * 1) div 2])"
    by blast
  from every have "1 < (2::nat) \<longrightarrow>
       coordinates b ! (2 * 1) = axis_code (map (\<lambda>j. pixel_diff ?F ?M (2 * j) 1) [0..<1]) \<and>
       coordinates b ! (2 * 1 + 1) =
         axis_code (map (\<lambda>j. pixel_diff ?F ?M (2 * 1 + 2 * j) 1) [0..<(length ?F - 2 * 1) div 2])"
    by (rule spec)
  then have xy: "coordinates b ! (2 * 1) = axis_code (map (\<lambda>j. pixel_diff ?F ?M (2 * j) 1) [0..<1])"
      "coordinates b ! (2 * 1 + 1) = axis_code (map (\<lambda>j. pixel_diff ?F ?M (2 * 1 + 2 * j) 1) [0..<1])"
    by simp_all
  have x: "coordinates b ! 2 = 1"
    using xy(1) by (simp add: axis_code_def code_step_def pixel_diff_def frame12_def
        toggle_def shift_in_def)
  have y: "coordinates b ! 3 = 0"
    using xy(2) by (simp add: axis_code_def code_step_def pixel_diff_def frame12_def
        toggle_def shift_in_def)
  from wf ccf dec x y show ?thesis by blast
qed

lemma decode_short_prefix:
  "decode [frame12 [0, 255]] \<lparr>width = 8, height = 8\<rparr> (frame12 [255, 255]) 30 = Inl OutOfRange"
proof -
  have "column_loop [frame12 [0, 255]] (frame12 [255, 255]) 30 cw 6 0 s = Inl OutOfRange"
    for cw s
    by (cases s) (simp add: column_loop.simps [of _ _ _ _ _ 0])
  then show ?thesis
    by (simp add: decode_def column_frame_count_8 Let_def)
qed

lemma decode_odd_rest:
  "decode [frame12 [0, 255], frame12 [255, 0], frame12 [255, 0]] \<lparr>width = 2, height = 2\<rparr>
     (frame12 [255, 255]) 30 = Inl OutOfRange"
proof -
  let ?F = "[frame12 [0, 255], frame12 [255, 0], frame12 [255, 0]]"
  let ?ps = "\<lparr>width = 2, height = 2\<rparr>"
  let ?M = "frame12 [255, 255]"
  let ?d0 = "\<lparr>rows = 0, cols = 0, data = []\<rparr> :: int Mat"
  let ?b0 = "\<lparr>error = replicate 2 0, coordinates = replicate 4 0, temp = replicate 2 False\<rparr>"
  have wf: "wf_input ?F ?M"
    by (simp add: wf_input_def same_size_def wf_Mat_def frame12_def)
  have ccf: "column_frame_count ?ps = 2"
    by (simp add: column_frame_count_def log2_ceil_double_def)
  have ok0: "diff_ok ?F ?M ?d0"
    by (simp add: diff_ok_def same_size_def frame12_def)
  have wf0: "wf_buffers (rows (?F ! 0) * cols (?F ! 0)) ?b0"
    by (simp add: wf_buffers_def frame12_def)
  have "\<exists>d'. diff_ok ?F ?M d' \<and>
          column_loop ?F ?M 30 (cols (?F ! 0)) 2 0 (?d0, ?b0) =
            Inr (d', fold (\<lambda>i. pass 0 (column_error 2 i) 30 (pair_diff ?F ?M i)
                               (rows (?F ! 0) * cols (?F ! 0))) (pair_indices 0 1) ?b0)"
    by (rule column_loop_run [OF wf _ _ ok0 wf0]) simp_all
  moreover have r: "rows (?F ! 0) = 1" "cols (?F ! 0) = 2"
    by (simp_all add: frame12_def)
  ultimately obtain d1 b1 where col: "column_loop ?F ?M 30 2 2 0 (?d0, ?b0) = Inr (d1, b1)"
    by auto
  have row: "row_loop ?F ?M 30 cw 2 2 s = Inl OutOfRange" for cw s
    by (cases s) (simp add: row_loop.simps [of _ _ _ _ _ 2])
  show ?thesis
    using col r by (simp add: decode_def ccf Let_def row)
qed

lemma decode_size_mismatch:
  "decode [frame12 [0, 255], \<lparr>rows = 2, cols = 2, data = [255, 0, 255, 0]\<rparr>]
     \<lparr>width = 2, height = 1\<rparr> (frame12 [255, 255]) 30 = Inl SizeMismatch"
proof -
  have "column_loop [frame12 [0, 255], \<lparr>rows = 2, cols = 2, data = [255, 0, 255, 0]\<rparr>]
          (frame12 [255, 255]) 30 cw 2 0 s = Inl SizeMismatch" for cw s
    by (cases s)
      (simp add: column_loop.simps [of _ _ _ _ _ 0] subtract_16S_def same_size_def frame12_def)
  moreover have "column_frame_count \<lparr>width = 2, height = 1\<rparr> = 2"
    by (simp add: column_frame_count_def log2_ceil_double_def)
  ultimately show ?thesis by (simp add: decode_def Let_def)
qed

lemma row_loop_wraps:
  assumes wf: "wf_input frames msk" and big: "65536 \<le> length frames"
  shows "i + 2 * c = 65534 \<Longrightarrow> diff_ok frames msk diff \<Longrightarrow>
         wf_buffers (rows (frames ! 0) * cols (frames ! 0)) b \<Longrightarrow>
         row_loop frames msk thr (cols (frames ! 0)) ccf i (diff, b) = Inl CounterWrap"
proof (induction c arbitrary: i diff b)
  case 0
  let ?D = "\<lparr>rows = rows (frames ! 0), cols = cols (frames ! 0), data = pair_diff frames msk i\<rparr>"
  from 0 big have i: "i < length frames" "Suc i < length frames" "\<not> i + 2 < 65536" by simp_all
  have sub: "subtract_16S (frames ! i) (frames ! Suc i) diff msk = Inr ?D"
    using wf i(2) "0.prems"(2) by (rule subtract_16S_pair)
  have "forEach (decode_pixel 1 (row_error (length frames) ccf i) thr (cols ?D)) ?D b =
        Inr (pass 1 (row_error (length frames) ccf i) thr (data ?D) (rows ?D * cols ?D) b)"
    by (rule forEach_decode_pixel) (use "0.prems"(3) in simp_all)
  then have each: "forEach (decode_pixel 1 (row_error (length frames) ccf i) thr
                     (cols (frames ! 0))) ?D b =
      Inr (pass 1 (row_error (length frames) ccf i) thr (pair_diff frames msk i)
             (rows (frames ! 0) * cols (frames ! 0)) b)"
    by simp
  show ?case
    using i sub each by (subst row_loop.simps) simp
next
  case (Suc c)
  let ?n = "rows (frames ! 0) * cols (frames ! 0)"
  let ?D = "\<lparr>rows = rows (frames ! 0), cols = cols (frames ! 0), data = pair_diff frames msk i\<rparr>"
  let ?b = "pass 1 (row_error (length frames) ccf i) thr (pair_diff frames msk i) ?n b"
  from Suc.prems big have i: "i < length frames" "Suc i < length frames" "i + 2 < 65536"
    by simp_all
  have sub: "subtract_16S (frames ! i) (frames ! Suc i) diff msk = Inr ?D"
    using wf i(2) Suc.prems(2) by (rule subtract_16S_pair)
  have "forEach (decode_pixel 1 (row_error (length frames) ccf i) thr (cols ?D)) ?D b =
        Inr (pass 1 (row_error (length frames) ccf i) thr (data ?D) (rows ?D * cols ?D) b)"
    by (rule forEach_decode_pixel) (use Suc.prems(3) in simp_all)
  then have each: "forEach (decode_pixel 1 (row_error (length frames) ccf i) thr
                     (cols (frames ! 0))) ?D b = Inr ?b"
    by simp
  have step: "row_loop frames msk thr (cols (frames ! 0)) ccf i (diff, b) =
              row_loop frames msk thr (cols (frames ! 0)) ccf (i + 2) (?D, ?b)"
    using i sub each by (subst row_loop.simps) simp
  have "row_loop frames msk thr (cols (frames ! 0)) ccf (i + 2) (?D, ?b) = Inl CounterWrap"
    using Suc.prems by (intro Suc.IH) (simp_all add: diff_ok_pair wf_buffers_pass)
  with step show ?case by simp
qed

lemma frame12_size: "rows (frame12 xs) = 1" "cols (frame12 xs) = 2"
  by (simp_all add: frame12_def)

lemma long_capture_facts:
  "length long_capture = 65536" "long_capture \<noteq> []" "long_capture ! 0 = frame12 [0, 255]"
  "set long_capture = {frame12 [0, 255]}"
proof -
  show "length long_capture = 65536" by (simp add: long_capture_def)
  then show "long_capture \<noteq> []" by auto
  show "long_capture ! 0 = frame12 [0, 255]"
    unfolding long_capture_def by (rule nth_replicate) simp
  show "set long_capture = {frame12 [0, 255]}"
    unfolding long_capture_def by (simp only: set_replicate_conv_if) simp
qed

lemma decode_long_capture:
  "decode long_capture \<lparr>width = 1, height = 2\<rparr> (frame12 [255, 255]) 30 = Inl CounterWrap"
proof -
  let ?M = "frame12 [255, 255]"
  let ?d0 = "\<lparr>rows = 0, cols = 0, data = []\<rparr> :: int Mat"
  let ?b0 = "\<lparr>error = replicate 2 0, coordinates = replicate 4 0, temp = replicate 2 False\<rparr>"
  have wf: "wf_input long_capture ?M"
    by (simp add: wf_input_def long_capture_facts same_size_def wf_Mat_def frame12_def)
  have sz: "rows (long_capture ! 0) = 1" "cols (long_capture ! 0) = 2"
    by (simp_all add: long_capture_facts frame12_size)
  have ccf: "column_frame_count \<lparr>width = 1, height = 2\<rparr> = 0"
    by (simp add: column_frame_count_def log2_ceil_double_def)
  have col: "column_loop long_capture ?M 30 2 0 0 s = Inr s" for s
    by (cases s) (simp add: column_loop.simps [of _ _ _ _ _ 0])
  have ok0: "diff_ok long_capture ?M ?d0"
    by (simp add: diff_ok_def same_size_def sz)
  have wf0: "wf_buffers (rows (long_capture ! 0) * cols (long_capture ! 0)) ?b0"
    by (simp add: wf_buffers_def sz)
  have "row_loop long_capture ?M 30 (cols (long_capture ! 0)) 0 0 (?d0, ?b0) = Inl CounterWrap"
    by (rule row_loop_wraps [where c = 32767, OF wf _ _ ok0 wf0]) (simp_all add: long_capture_facts)
  then have row: "row_loop long_capture ?M 30 2 0 0 (?d0, ?b0) = Inl CounterWrap"
    by (simp add: sz)
  show ?thesis
    using row by (simp add: decode_def Let_def long_capture_facts(2) ccf sz col)
qed

lemma column_loop_short:
  assumes wf: "wf_input frames msk" and short: "length frames < unat ccf"
  shows "i + 2 * c = length frames \<Longrightarrow> diff_ok frames msk diff \<Longrightarrow>
         wf_buffers (rows (frames ! 0) * cols (frames ! 0)) b \<Longrightarrow>
         column_loop frames msk thr (cols (frames ! 0)) ccf i (diff, b) = Inl OutOfRange"
proof (induction c arbitrary: i diff b)
  case 0
  with short have "i < unat ccf" "\<not> i + 1 < length frames" by simp_all
  then show ?case by (subst column_loop.simps) simp
next
  case (Suc c)
  let ?n = "rows (frames ! 0) * cols (frames ! 0)"
  let ?D = "\<lparr>rows = rows (frames ! 0), cols = cols (frames ! 0), data = pair_diff frames msk i\<rparr>"
  let ?b = "pass 0 (column_error ccf i) thr (pair_diff frames msk i) ?n b"
  from Suc.prems short have i: "i < unat ccf" "Suc i < length frames" by simp_all
  have sub: "subtract_16S (frames ! i) (frames ! Suc i) diff msk = Inr ?D"
    using wf i(2) Suc.prems(2) by (rule subtract_16S_pair)
  have "forEach (decode_pixel 0 (column_error ccf i) thr (cols ?D)) ?D b =
        Inr (pass 0 (column_error ccf i) thr (data ?D) (rows ?D * cols ?D) b)"
    by (rule forEach_decode_pixel) (use Suc.prems(3) in simp_all)
  then have each: "forEach (decode_pixel 0 (column_error ccf i) thr (cols (frames ! 0))) ?D b
      = Inr ?b"
    by simp
  have step: "column_loop frames msk thr (cols (frames ! 0)) ccf i (diff, b) =
              column_loop frames msk thr (cols (frames ! 0)) ccf (i + 2) (?D, ?b)"
    using i sub each by (subst column_loop.simps) simp
  have "column_loop frames msk thr (cols (frames ! 0)) ccf (i + 2) (?D, ?b) = Inl OutOfRange"
    using Suc.prems by (intro Suc.IH) (simp_all add: diff_ok_pair wf_buffers_pass)
  with step show ?case by simp
qed

lemma exact_count_capture_facts:
  "length exact_count_capture = 58" "exact_count_capture \<noteq> []"
  "exact_count_capture ! 0 = frame12 [0, 255]"
  "set exact_count_capture = {frame12 [0, 255]}"
proof -
  show "length exact_count_capture = 58" by (simp add: exact_count_capture_def)
  then show "exact_count_capture \<noteq> []" by auto
  show "exact_count_capture ! 0 = frame12 [0, 255]"
    unfolding exact_count_capture_def by (rule nth_replicate) simp
  show "set exact_count_capture = {frame12 [0, 255]}"
    unfolding exact_count_capture_def by (simp only: set_replicate_conv_if) simp
qed

lemma decode_exact_count_capture:
  "decode exact_count_capture \<lparr>width = 536870912, height = 2\<rparr> (frame12 [255, 255]) 30
     = Inl OutOfRange"
proof -
  let ?M = "frame12 [255, 255]"
  let ?d0 = "\<lparr>rows = 0, cols = 0, data = []\<rparr> :: int Mat"
  let ?b0 = "\<lparr>error = replicate 2 0, coordinates = replicate 4 0, temp = replicate 2 False\<rparr>"
  have wf: "wf_input exact_count_capture ?M"
    by (simp add: wf_input_def exact_count_capture_facts same_size_def wf_Mat_def frame12_def)
  have sz: "rows (exact_count_capture ! 0) = 1" "cols (exact_count_capture ! 0) = 2"
    by (simp_all add: exact_count_capture_facts frame12_size)
  have ccf: "column_frame_count \<lparr>width = 536870912, height = 2\<rparr> = 60"
    by (simp add: column_frame_count_def log2_ceil_double_def)
  have ok0: "diff_ok exact_count_capture ?M ?d0"
    by (simp add: diff_ok_def same_size_def sz)
  have wf0: "wf_buffers (rows (exact_count_capture ! 0) * cols (exact_count_capture ! 0)) ?b0"
    by (simp add: wf_buffers_def sz)
  have "column_loop exact_count_capture ?M 30 (cols (exact_count_capture ! 0)) 60 0 (?d0, ?b0)
          = Inl OutOfRange"
    by (rule column_loop_short [where c = 29, OF wf _ _ ok0 wf0])
      (simp_all add: exact_count_capture_facts)
  then have col: "column_loop exact_count_capture ?M 30 2 60 0 (?d0, ?b0) = Inl OutOfRange"
    by (simp add: sz)
  show ?thesis
    using col by (simp add: decode_def Let_def exact_count_capture_facts(2) ccf sz)
qed

text \<open>
  Claim C8 as stated fails for inputs that do not have the expected layout, and for one
  width. With one frame and a projector 8 pixels wide there are no 6 leading frames: the
  first pass reads \<open>frames[1]\<close> beyond the vector. With 3 frames and a projector 2 pixels
  wide, the one frame that remains after the prefix is not consumed as a pair: the pass
  reads \<open>frames[3]\<close> beyond the vector. Frames of two sizes stop the first subtraction, and
  with 65536 frames the 16-bit counter of the vertical loop wraps before it reaches the end
  of the sequence. At the width \<open>2^29\<close>, where \<open>2 * ceil(log2(projectorWidth))\<close> is 58, the
  count of line 67 is 60: of a sequence of 58 frames the horizontal loop wants two more.
\<close>

theorem frames_without_the_layout_are_not_consumed:
  "decode [frame12 [0, 255]] \<lparr>width = 8, height = 8\<rparr> (frame12 [255, 255]) 30
     = Inl OutOfRange \<and>
   decode [frame12 [0, 255], frame12 [255, 0], frame12 [255, 0]] \<lparr>width = 2, height = 2\<rparr>
     (frame12 [255, 255]) 30 = Inl OutOfRange \<and>
   decode [frame12 [0, 255], \<lparr>rows = 2, cols = 2, data = [255, 0, 255, 0]\<rparr>]
     \<lparr>width = 2, height = 1\<rparr> (frame12 [255, 255]) 30 = Inl SizeMismatch \<and>
   decode long_capture \<lparr>width = 1, height = 2\<rparr> (frame12 [255, 255]) 30 = Inl CounterWrap \<and>
   2 * ceillog2 (nat 536870912) = length exact_count_capture \<and>
   decode exact_count_capture \<lparr>width = 536870912, height = 2\<rparr> (frame12 [255, 255]) 30
     = Inl OutOfRange"
proof -
  have "ceillog2 (2 ^ 29) = 29" by (rule ceillog2_2_power)
  then have "2 * ceillog2 (nat 536870912) = length exact_count_capture"
    by (simp add: exact_count_capture_facts)
  with decode_short_prefix decode_odd_rest decode_size_mismatch decode_long_capture
    decode_exact_count_capture
  show ?thesis by (intro conjI)
qed

section \<open>The output vectors of a concrete capture\<close>




section \<open>Decoding a noise-free Gray-code capture\<close>




















section \<open>The round trip\<close>






section \<open>The claims about the mask and the pipeline driver\<close>

lemma subtract_8U_same: "subtract_8U m m = Inr (zero_image (rows m) (cols m))"
proof -
  have "map (\<lambda>k. word_of_int (max 0 (uint (data m ! k) - uint (data m ! k))) :: 8 word)
          [0..<rows m * cols m] = replicate (rows m * cols m) 0"
    by (simp add: map_replicate_const)
  then show ?thesis by (simp add: subtract_8U_def same_size_def zero_image_def)
qed

lemma threshold_binary_zero:
  "0 \<le> t \<Longrightarrow> threshold_binary (zero_image r c) t = zero_image r c"
  by (simp add: threshold_binary_def zero_image_def)

text \<open>
  Claim C9, as amended. For a frame that is not empty, with white and black frame the
  same, \<open>getMask\<close> returns the all-false mask in the adaptive mode (given that the blur of
  an all-zero image is that image) and in the fixed mode when the threshold is not
  negative.
\<close>

theorem mask_of_identical_frames_is_all_false:
  assumes "0 < rows F * cols F"
    and "useOtsu \<longrightarrow> (\<forall>r c. gaussian_blur_5x5 cv (zero_image r c) = zero_image r c)"
    and "\<not> useOtsu \<longrightarrow> 0 \<le> threshold"
  shows "getMask cv F F useOtsu threshold = Inr (zero_image (rows F) (cols F))"
proof -
  have g: "cvtColor cv F = Inr (gray_frame cv F)"
    using assms(1) by (simp add: cvtColor_def)
  have rc: "rows (gray_frame cv F) = rows F" "cols (gray_frame cv F) = cols F"
    by (simp_all add: gray_frame_def)
  have d: "subtract_8U (gray_frame cv F) (gray_frame cv F) = Inr (zero_image (rows F) (cols F))"
    by (simp add: subtract_8U_same rc)
  show ?thesis
  proof (cases useOtsu)
    case True
    with assms(2) have "gaussian_blur_5x5 cv (zero_image (rows F) (cols F)) =
        zero_image (rows F) (cols F)" by blast
    with True show ?thesis
      by (simp add: getMask_def g d Let_def threshold_binary_zero)
  next
    case False
    with assms(3) have "0 \<le> threshold" by blast
    with False show ?thesis
      by (simp add: getMask_def g d threshold_binary_zero)
  qed
qed

theorem mask_of_identical_frames_is_all_false_witness:
  "getMask plain (frame12 [7, 200]) (frame12 [7, 200]) True 30 = Inr (zero_image 1 2) \<and>
   getMask plain (frame12 [7, 200]) (frame12 [7, 200]) False 0 = Inr (zero_image 1 2)"
proof -
  have ne: "0 < rows (frame12 [7, 200]) * cols (frame12 [7, 200])"
    by (simp add: frame12_def)
  have blur: "True \<longrightarrow> (\<forall>r c. gaussian_blur_5x5 plain (zero_image r c) = zero_image r c)"
    by (simp add: plain_def)
  have "getMask plain (frame12 [7, 200]) (frame12 [7, 200]) True 30 =
        Inr (zero_image (rows (frame12 [7, 200])) (cols (frame12 [7, 200])))"
    by (rule mask_of_identical_frames_is_all_false [OF ne blur]) simp
  moreover have "getMask plain (frame12 [7, 200]) (frame12 [7, 200]) False 0 =
        Inr (zero_image (rows (frame12 [7, 200])) (cols (frame12 [7, 200])))"
    by (rule mask_of_identical_frames_is_all_false [OF ne]) simp_all
  ultimately show ?thesis by (simp add: frame12_def)
qed

lemma getMask_negative_threshold:
  "getMask plain (frame12 [7, 200]) (frame12 [7, 200]) False (- 1) =
     Inr \<lparr>rows = 1, cols = 2, data = [255, 255]\<rparr>"
  by (simp add: getMask_def cvtColor_def gray_frame_def subtract_8U_def same_size_def
      threshold_binary_def frame12_def plain_def upt_conv_Cons)

lemma getMask_empty_frame:
  "getMask plain \<lparr>rows = 0, cols = 0, data = []\<rparr> \<lparr>rows = 0, cols = 0, data = []\<rparr> True 30 =
     Inl EmptyMat"
  by (simp add: getMask_def cvtColor_def)

text \<open>
  Claim C9 as stated fails in the fixed mode with a negative threshold: every pixel of the
  zero difference is greater than the threshold, and the mask is all true. It also fails
  for an empty frame, which the colour conversion rejects.
\<close>

theorem negative_threshold_gives_all_true_mask:
  "getMask plain (frame12 [7, 200]) (frame12 [7, 200]) False (- 1) =
     Inr \<lparr>rows = 1, cols = 2, data = [255, 255]\<rparr> \<and>
   getMask plain \<lparr>rows = 0, cols = 0, data = []\<rparr> \<lparr>rows = 0, cols = 0, data = []\<rparr> True 30 =
     Inl EmptyMat"
  using getMask_negative_threshold getMask_empty_frame by (rule conjI)







end
